theory Spec2Isabelle
  imports Main
begin

section \<open>Data model of DeviceListener.tsx\<close>

text \<open>
  The lifecycle states of the TypeScript union type \<open>DeviceLogListenerState\<close>.
\<close>

datatype DeviceLogListenerState =
  Starting | Stopping | Active | Inactive | Fatal | Zombie

text \<open>A JavaScript \<open>Error\<close> value, identified by its message.\<close>

datatype Error = Error string

text \<open>
  The teardown closure returned by \<open>startListener()\<close>. Its type is
  \<open>() => Promise<void> | void\<close>: invoking it either throws at once (the second
  field holds the error) or returns something that is awaited.
\<close>

datatype token = Token (tokenId: nat) (throwsOnCall: "Error option")

text \<open>
  The callbacks that are ever handed to \<open>State.subscribe\<close>, one constructor per
  closure of the source:
  \<^item> \<open>ResetRestartCnt\<close>: the constructor's \<open>on('active', ...)\<close> body;
  \<^item> \<open>AutoRestart\<close>: the constructor's \<open>on('fatal', ...)\<close> body;
  \<^item> \<open>ResumeStart p\<close>: the \<open>async () => { try { await this.start(); resolve() } catch (e) { reject(e) } }\<close>
    closure built by \<open>start()\<close>, where \<open>p\<close> is the promise it settles;
  \<^item> \<open>ResumeStop p\<close>: the same closure built by \<open>stop()\<close>;
  \<^item> \<open>Observer k\<close>: a callback of an outside observer (the public \<open>on\<close>/\<open>once\<close>),
    which only records that it ran.
\<close>

datatype callback =
  ResetRestartCnt | AutoRestart | ResumeStart nat | ResumeStop nat | Observer nat

text \<open>
  \<open>wrappedCb\<close> of \<open>State.subscribe\<close>: a closure with its own \<open>executed\<close> cell,
  identified by the number of that cell, around the callback \<open>cb\<close>.
\<close>

datatype wrappedCb = WrappedCb (subId: nat) (cb: callback)

text \<open>
  An entry of the EventEmitter's listener array: the function itself when it was added
  with \<open>emitter.on\<close>, or the once-wrapper (with its own \<open>fired\<close> cell, identified by
  a number) when it was added with \<open>emitter.once\<close>.
\<close>

datatype listener = Plain wrappedCb | OnceWrapper nat wrappedCb

datatype promise = Pending | Resolved | Rejected Error

text \<open>
  A suspended activation of an async function, waiting at an \<open>await\<close>:
  \<^item> \<open>AwaitAttach p\<close>: \<open>start()\<close> with promise \<open>p\<close> at \<open>await this.startListener()\<close>;
  \<^item> \<open>AwaitSleep p\<close>: \<open>start()\<close> with promise \<open>p\<close> at \<open>await sleep(RESTART_SLEEP)\<close>;
  \<^item> \<open>AwaitTeardown p\<close>: \<open>stop()\<close> with promise \<open>p\<close> at \<open>await this.stopLogListener()\<close>;
  \<^item> \<open>AwaitCall p q\<close>: a resume closure for promise \<open>p\<close> at \<open>await this.start()\<close>
    or \<open>await this.stop()\<close>, where \<open>q\<close> is the promise of that inner call.
\<close>

datatype task = AwaitAttach nat | AwaitSleep nat | AwaitTeardown nat | AwaitCall nat nat

text \<open>
  What an instance does to its collaborators: a call of \<open>startListener()\<close>, a call
  of \<open>sleep(ms)\<close>, a call of the teardown token.
\<close>

datatype effect = CallStartListener | CallSleep nat | CallToken token

text \<open>
  One instance: the fields of class \<open>State\<close>, the mutable cells of its closures, the
  fields of class \<open>DeviceListener\<close>, the promises and suspended activations of the
  single-threaded runtime, and a record of what the instance did: the answers
  asked of the connectivity predicate (\<open>connQueries\<close>), the calls to its collaborators
  in order (\<open>effects\<close>), the restarts issued by the \<open>fatal\<close> handler
  (\<open>autoRestarts\<close>), the observer callbacks run (\<open>observed\<close>) and the states
  entered, latest first (\<open>history\<close>).
\<close>

record DeviceListener =
  currentState :: DeviceLogListenerState
  error :: "Error option"
  valueEmitter :: "DeviceLogListenerState \<Rightarrow> listener list"
  executed :: "nat set"
  fired :: "nat set"
  nextId :: nat
  stopLogListener :: "token option"
  restartCnt :: int
  isDeviceConnected :: "nat \<Rightarrow> Error + bool"
  connQueries :: nat
  promises :: "nat \<Rightarrow> promise option"
  tasks :: "task list"
  effects :: "effect list"
  autoRestarts :: nat
  observed :: "nat list"
  history :: "DeviceLogListenerState list"

definition RESTART_CNT :: int where
  "RESTART_CNT = 3"

definition RESTART_SLEEP :: nat where
  "RESTART_SLEEP = 100"

section \<open>The EventEmitter of the platform\<close>

text \<open>
  \<open>removeListener\<close> scans the array from its end and removes one entry.
\<close>

fun removeFirst :: "('a \<Rightarrow> bool) \<Rightarrow> 'a list \<Rightarrow> 'a list" where
  "removeFirst P [] = []"
| "removeFirst P (x # xs) = (if P x then xs else x # removeFirst P xs)"

definition removeLast :: "('a \<Rightarrow> bool) \<Rightarrow> 'a list \<Rightarrow> 'a list" where
  "removeLast P xs = rev (removeFirst P (rev xs))"

text \<open>
  \<open>off(type, fn)\<close> matches an entry that is \<open>fn\<close> or whose \<open>.listener\<close> is \<open>fn\<close>;
  the once-wrapper removing itself matches only itself.
\<close>

fun listensFor :: "nat \<Rightarrow> listener \<Rightarrow> bool" where
  "listensFor i (Plain w) = (subId w = i)"
| "listensFor i (OnceWrapper k w) = (subId w = i)"

fun isWrapper :: "nat \<Rightarrow> listener \<Rightarrow> bool" where
  "isWrapper k (Plain w) = False"
| "isWrapper k (OnceWrapper k' w) = (k' = k)"

definition off :: "DeviceLogListenerState \<Rightarrow> nat \<Rightarrow> DeviceListener \<Rightarrow> DeviceListener" where
  "off s i c = c\<lparr>valueEmitter := (valueEmitter c)(s := removeLast (listensFor i) (valueEmitter c s))\<rparr>"

definition removeWrapper :: "DeviceLogListenerState \<Rightarrow> nat \<Rightarrow> DeviceListener \<Rightarrow> DeviceListener" where
  "removeWrapper s k c = c\<lparr>valueEmitter := (valueEmitter c)(s := removeLast (isWrapper k) (valueEmitter c s))\<rparr>"

definition addListener :: "DeviceLogListenerState \<Rightarrow> listener \<Rightarrow> DeviceListener \<Rightarrow> DeviceListener" where
  "addListener s l c = c\<lparr>valueEmitter := (valueEmitter c)(s := valueEmitter c s @ [l])\<rparr>"

section \<open>class State\<close>

text \<open>
  Every function that may run a callback takes the interpreter of callbacks \<open>run\<close> as
  its first argument; \<open>None\<close> means that the nesting of calls went deeper than the
  interpreter was allowed to go.
\<close>

type_synonym runner = "callback \<Rightarrow> DeviceListener \<Rightarrow> DeviceListener option"

text \<open>\<open>wrappedCb\<close>: the first-call guard of \<open>subscribe\<close>.\<close>

fun callWrapped :: "runner \<Rightarrow> wrappedCb \<Rightarrow> DeviceListener \<Rightarrow> DeviceListener option" where
  "callWrapped run (WrappedCb i f) c =
     (if i \<in> executed c then Some c
      else run f (c\<lparr>executed := insert i (executed c)\<rparr>))"

text \<open>
  Calling one entry of the listener array during \<open>emit(s)\<close>. The once-wrapper does
  nothing when it has fired; otherwise it removes itself from the array of \<open>s\<close>, marks
  itself fired and calls its listener.
\<close>

fun callListener :: "runner \<Rightarrow> DeviceLogListenerState \<Rightarrow> listener \<Rightarrow> DeviceListener \<Rightarrow> DeviceListener option" where
  "callListener run s (Plain w) c = callWrapped run w c"
| "callListener run s (OnceWrapper k w) c =
     (if k \<in> fired c then Some c
      else callWrapped run w ((removeWrapper s k c)\<lparr>fired := insert k (fired c)\<rparr>))"

text \<open>\<open>emit\<close> calls the entries of a copy of the array, in order.\<close>

fun emitLoop :: "runner \<Rightarrow> DeviceLogListenerState \<Rightarrow> listener list \<Rightarrow> DeviceListener \<Rightarrow> DeviceListener option" where
  "emitLoop run s [] c = Some c"
| "emitLoop run s (l # ls) c =
     (case callListener run s l c of
        None \<Rightarrow> None
      | Some c' \<Rightarrow> emitLoop run s ls c')"

definition emit :: "runner \<Rightarrow> DeviceLogListenerState \<Rightarrow> DeviceListener \<Rightarrow> DeviceListener option" where
  "emit run s c = emitLoop run s (valueEmitter c s) c"

text \<open>
  \<open>State.set(newState, error)\<close>; \<open>err\<close> is \<open>None\<close> where the source passes one
  argument.
\<close>

definition setState :: "runner \<Rightarrow> DeviceLogListenerState \<Rightarrow> Error option \<Rightarrow> DeviceListener \<Rightarrow> DeviceListener option" where
  "setState run newState err c =
     emit run newState (c\<lparr>currentState := newState, error := err, history := newState # history c\<rparr>)"

text \<open>\<open>State.is\<close>, with a single state passed as a one-element list.\<close>

definition isState :: "DeviceLogListenerState list \<Rightarrow> DeviceListener \<Rightarrow> bool" where
  "isState targetState c = (currentState c \<in> set targetState)"

text \<open>
  The unsubscribe function returned by \<open>subscribe\<close>: the empty closure, or the one
  that calls \<open>off\<close> for every listed state.
\<close>

datatype disposer = Noop | Off "DeviceLogListenerState list" nat

fun addListeners :: "bool \<Rightarrow> wrappedCb \<Rightarrow> DeviceLogListenerState list \<Rightarrow> DeviceListener \<Rightarrow> DeviceListener" where
  "addListeners once w [] c = c"
| "addListeners once w (s # ss) c =
     addListeners once w ss
       (if once
        then (addListener s (OnceWrapper (nextId c) w) c)\<lparr>nextId := nextId c + 1\<rparr>
        else addListener s (Plain w) c)"

definition register :: "DeviceLogListenerState list \<Rightarrow> callback \<Rightarrow> bool \<Rightarrow> DeviceListener \<Rightarrow> disposer \<times> DeviceListener" where
  "register statesNormalized f once c =
     (let i = nextId c
      in (Off statesNormalized i,
          addListeners once (WrappedCb i f) statesNormalized (c\<lparr>nextId := i + 1\<rparr>)))"

definition subscribe :: "runner \<Rightarrow> DeviceLogListenerState list \<Rightarrow> callback \<Rightarrow> bool \<Rightarrow> DeviceListener \<Rightarrow> (disposer \<times> DeviceListener) option" where
  "subscribe run statesNormalized f once c =
     (if currentState c \<in> set statesNormalized
      then (case run f c of None \<Rightarrow> None | Some c' \<Rightarrow> Some (Noop, c'))
      else Some (register statesNormalized f once c))"

fun dispose :: "disposer \<Rightarrow> DeviceListener \<Rightarrow> DeviceListener" where
  "dispose Noop c = c"
| "dispose (Off ss i) c = fold (\<lambda>s. off s i) ss c"

section \<open>class DeviceListener\<close>

subsection \<open>Promises\<close>

definition newPromise :: "DeviceListener \<Rightarrow> nat \<times> DeviceListener" where
  "newPromise c =
     (nextId c, c\<lparr>nextId := nextId c + 1, promises := (promises c)(nextId c \<mapsto> Pending)\<rparr>)"

text \<open>Settling a promise that is already settled does nothing.\<close>

definition settle :: "nat \<Rightarrow> promise \<Rightarrow> DeviceListener \<Rightarrow> DeviceListener" where
  "settle p v c =
     (if promises c p = Some Pending then c\<lparr>promises := (promises c)(p \<mapsto> v)\<rparr> else c)"

definition resolve :: "nat \<Rightarrow> DeviceListener \<Rightarrow> DeviceListener" where
  "resolve p c = settle p Resolved c"

definition reject :: "nat \<Rightarrow> Error \<Rightarrow> DeviceListener \<Rightarrow> DeviceListener" where
  "reject p e c = settle p (Rejected e) c"

subsection \<open>Helpers imported by the source\<close>

text \<open>
  Modelled from the spec: \<open>assertNotNull\<close> of \<open>../comms/Utilities\<close> is imported
  by the source and not part of it. The spec calls an absent teardown token an internal
  invariant violation that is a programming error: the helper raises when its argument
  is absent (the result is the error raised, \<open>None\<close> when it returns).
\<close>

definition assertNotNull :: "'a option \<Rightarrow> Error option" where
  "assertNotNull v =
     (case v of
        None \<Rightarrow> Some (Error ''Unexpected null/undefined value found'')
      | Some x \<Rightarrow> None)"

text \<open>
  Calling \<open>undefined\<close> as a function raises a \<open>TypeError\<close> in JavaScript.
\<close>

definition notAFunction :: Error where
  "notAFunction = Error ''this.stopLogListener is not a function''"

subsection \<open>start()\<close>

text \<open>
  The \<open>while (!this.stopLogListener)\<close> loop of \<open>start()\<close>, from the test of its
  condition to the next \<open>await\<close> or \<open>return\<close>. The connectivity predicate is asked
  its \<open>connQueries\<close>-th answer; \<open>Inl e\<close> is the predicate throwing \<open>e\<close>, which
  nothing in \<open>start()\<close> catches, so the promise of the call rejects. Leaving the loop
  with the token set runs \<open>this._state.set('active')\<close>.
\<close>

definition attachLoop :: "runner \<Rightarrow> nat \<Rightarrow> DeviceListener \<Rightarrow> DeviceListener option" where
  "attachLoop run p c =
     (if stopLogListener c \<noteq> None
      then map_option (resolve p) (setState run Active None c)
      else (case isDeviceConnected c (connQueries c) of
              Inl e \<Rightarrow> Some (reject p e (c\<lparr>connQueries := connQueries c + 1\<rparr>))
            | Inr False \<Rightarrow>
                map_option (resolve p)
                  (setState run Inactive None (c\<lparr>connQueries := connQueries c + 1\<rparr>))
            | Inr True \<Rightarrow>
                Some (c\<lparr>connQueries := connQueries c + 1,
                        effects := effects c @ [CallStartListener],
                        tasks := tasks c @ [AwaitAttach p]\<rparr>)))"

text \<open>
  \<open>start()\<close> up to its first \<open>await\<close> or its \<open>return\<close>; the result is the promise
  of the call and the new instance.
\<close>

definition start :: "runner \<Rightarrow> DeviceListener \<Rightarrow> (nat \<times> DeviceListener) option" where
  "start run c0 =
     (let (p, c) = newPromise c0
      in if isState [Active] c then Some (p, resolve p c)
         else if isState [Starting] c
         then map_option (\<lambda>(d, c'). (p, c')) (subscribe run [Active, Fatal] (ResumeStart p) True c)
         else if isState [Stopping] c
         then map_option (\<lambda>(d, c'). (p, c')) (subscribe run [Inactive, Zombie] (ResumeStart p) True c)
         else map_option (Pair p)
                (Option.bind (setState run Starting None (c\<lparr>stopLogListener := None\<rparr>))
                   (attachLoop run p)))"

text \<open>
  The activation of \<open>start()\<close> with promise \<open>p\<close> resumed after
  \<open>await this.startListener()\<close>: with the token (\<open>Inr\<close>) it breaks out of the loop,
  with the error thrown (\<open>Inl\<close>) it runs the \<open>catch\<close> block.
\<close>

definition attachSettled :: "runner \<Rightarrow> nat \<Rightarrow> Error + token \<Rightarrow> DeviceListener \<Rightarrow> DeviceListener option" where
  "attachSettled run p r c =
     (case r of
        Inr tok \<Rightarrow>
          map_option (resolve p) (setState run Active None (c\<lparr>stopLogListener := Some tok\<rparr>))
      | Inl e \<Rightarrow>
          if restartCnt c \<le> 0
          then map_option (resolve p) (setState run Fatal (Some e) c)
          else Some (c\<lparr>restartCnt := restartCnt c - 1,
                       effects := effects c @ [CallSleep RESTART_SLEEP],
                       tasks := tasks c @ [AwaitSleep p]\<rparr>))"

subsection \<open>stop()\<close>

text \<open>
  The \<open>try\<close> block of \<open>stop()\<close> up to its \<open>await\<close>, and the \<open>catch\<close> block for
  what is thrown before it.
\<close>

definition invokeToken :: "runner \<Rightarrow> nat \<Rightarrow> DeviceListener \<Rightarrow> DeviceListener option" where
  "invokeToken run p c =
     (case assertNotNull (stopLogListener c) of
        Some e \<Rightarrow> map_option (resolve p) (setState run Zombie (Some e) c)
      | None \<Rightarrow>
          (case stopLogListener c of
             None \<Rightarrow> map_option (resolve p) (setState run Zombie (Some notAFunction) c)
           | Some tok \<Rightarrow>
               (case throwsOnCall tok of
                  Some e \<Rightarrow>
                    map_option (resolve p)
                      (setState run Zombie (Some e) (c\<lparr>effects := effects c @ [CallToken tok]\<rparr>))
                | None \<Rightarrow>
                    Some (c\<lparr>effects := effects c @ [CallToken tok],
                            tasks := tasks c @ [AwaitTeardown p]\<rparr>))))"

definition stop :: "runner \<Rightarrow> DeviceListener \<Rightarrow> (nat \<times> DeviceListener) option" where
  "stop run c0 =
     (let (p, c) = newPromise c0
      in if isState [Inactive, Fatal, Zombie] c then Some (p, resolve p c)
         else if isState [Stopping] c
         then map_option (\<lambda>(d, c'). (p, c')) (subscribe run [Inactive, Zombie] (ResumeStop p) True c)
         else if isState [Starting] c
         then map_option (\<lambda>(d, c'). (p, c')) (subscribe run [Active, Fatal] (ResumeStop p) True c)
         else map_option (Pair p)
                (Option.bind (setState run Stopping None c) (invokeToken run p)))"

text \<open>
  The activation of \<open>stop()\<close> with promise \<open>p\<close> resumed after
  \<open>await this.stopLogListener()\<close>: \<open>None\<close> when the teardown completed, \<open>Some e\<close>
  when it rejected with \<open>e\<close>.
\<close>

definition teardownSettled :: "runner \<Rightarrow> nat \<Rightarrow> Error option \<Rightarrow> DeviceListener \<Rightarrow> DeviceListener option" where
  "teardownSettled run p r c =
     (case r of
        None \<Rightarrow> map_option (resolve p) (setState run Inactive None c)
      | Some e \<Rightarrow> map_option (resolve p) (setState run Zombie (Some e) c))"

subsection \<open>The callbacks\<close>

text \<open>
  The bodies of the callbacks. A callback that calls \<open>start()\<close> or \<open>stop()\<close> runs it
  with an interpreter one level shallower: \<open>runCallback n\<close> follows calls nested at
  most \<open>n\<close> deep and yields \<open>None\<close> beyond that.
\<close>

primrec runCallback :: "nat \<Rightarrow> runner" where
  "runCallback 0 = (\<lambda>f c. None)"
| "runCallback (Suc n) = (\<lambda>f c.
     case f of
       ResetRestartCnt \<Rightarrow> Some (c\<lparr>restartCnt := RESTART_CNT\<rparr>)
     | AutoRestart \<Rightarrow>
         if restartCnt c \<le> 0 then Some c
         else map_option snd (start (runCallback n) (c\<lparr>autoRestarts := autoRestarts c + 1\<rparr>))
     | ResumeStart p \<Rightarrow>
         (case start (runCallback n) c of
            None \<Rightarrow> None
          | Some (q, c') \<Rightarrow> Some (c'\<lparr>tasks := tasks c' @ [AwaitCall p q]\<rparr>))
     | ResumeStop p \<Rightarrow>
         (case stop (runCallback n) c of
            None \<Rightarrow> None
          | Some (q, c') \<Rightarrow> Some (c'\<lparr>tasks := tasks c' @ [AwaitCall p q]\<rparr>))
     | Observer k \<Rightarrow> Some (c\<lparr>observed := observed c @ [k]\<rparr>))"

subsection \<open>The constructor\<close>

definition blank :: "(nat \<Rightarrow> Error + bool) \<Rightarrow> DeviceListener" where
  "blank conn =
     \<lparr>currentState = Inactive, error = None, valueEmitter = (\<lambda>s. []),
      executed = {}, fired = {}, nextId = 0,
      stopLogListener = None, restartCnt = RESTART_CNT,
      isDeviceConnected = conn, connQueries = 0,
      promises = Map.empty, tasks = [],
      effects = [], autoRestarts = 0,
      observed = [], history = []\<rparr>"

text \<open>
  The constructor subscribes its two handlers with \<open>on\<close>; the state is \<open>inactive\<close>,
  so both are registered.
\<close>

definition newDeviceListener :: "(nat \<Rightarrow> Error + bool) \<Rightarrow> DeviceListener" where
  "newDeviceListener conn =
     snd (register [Fatal] AutoRestart False
            (snd (register [Active] ResetRestartCnt False (blank conn))))"

section \<open>The single-threaded runtime\<close>

text \<open>
  What can happen next to an instance: a caller invokes \<open>start()\<close> or \<open>stop()\<close>, an
  awaited promise settles and the suspended activation runs on, an observer subscribes
  or calls an unsubscribe function. An event whose activation does not exist, or whose
  awaited promise is still pending, changes nothing.
\<close>

datatype event =
  CallStart
| CallStop
| AttachSettles nat "Error + token"
| SleepDone nat
| TeardownSettles nat "Error option"
| CallSettles nat nat
| Subscribe bool "DeviceLogListenerState list" nat
| Unsubscribe disposer

definition dropTask :: "task \<Rightarrow> DeviceListener \<Rightarrow> DeviceListener" where
  "dropTask t c = c\<lparr>tasks := remove1 t (tasks c)\<rparr>"

fun step :: "nat \<Rightarrow> event \<Rightarrow> DeviceListener \<Rightarrow> DeviceListener option" where
  "step n CallStart c = map_option snd (start (runCallback n) c)"
| "step n CallStop c = map_option snd (stop (runCallback n) c)"
| "step n (AttachSettles p r) c =
     (if AwaitAttach p \<in> set (tasks c)
      then attachSettled (runCallback n) p r (dropTask (AwaitAttach p) c)
      else Some c)"
| "step n (SleepDone p) c =
     (if AwaitSleep p \<in> set (tasks c)
      then attachLoop (runCallback n) p (dropTask (AwaitSleep p) c)
      else Some c)"
| "step n (TeardownSettles p r) c =
     (if AwaitTeardown p \<in> set (tasks c)
      then teardownSettled (runCallback n) p r (dropTask (AwaitTeardown p) c)
      else Some c)"
| "step n (CallSettles p q) c =
     (if AwaitCall p q \<in> set (tasks c)
      then (case promises c q of
              Some Resolved \<Rightarrow> Some (resolve p (dropTask (AwaitCall p q) c))
            | Some (Rejected e) \<Rightarrow> Some (reject p e (dropTask (AwaitCall p q) c))
            | Some Pending \<Rightarrow> Some c
            | None \<Rightarrow> Some c)
      else Some c)"
| "step n (Subscribe once ss k) c = map_option snd (subscribe (runCallback n) ss (Observer k) once c)"
| "step n (Unsubscribe d) c = Some (dispose d c)"

fun steps :: "nat \<Rightarrow> event list \<Rightarrow> DeviceListener \<Rightarrow> DeviceListener option" where
  "steps n [] c = Some c"
| "steps n (ev # evs) c =
     (case step n ev c of None \<Rightarrow> None | Some c' \<Rightarrow> steps n evs c')"

section \<open>Derived notions and scenarios\<close>

definition startListenerCalls :: "DeviceListener \<Rightarrow> nat" where
  "startListenerCalls c = count_list (effects c) CallStartListener"

text \<open>A connectivity predicate that always answers \<open>true\<close>.\<close>

definition alwaysConnected :: "nat \<Rightarrow> Error + bool" where
  "alwaysConnected q = Inr True"

text \<open>
  The attach capability failing with each error of \<open>es\<close> in turn, for the activation
  of \<open>start()\<close> with promise \<open>p\<close>: the awaited \<open>startListener()\<close> rejects, then
  the backoff sleep ends.
\<close>

definition attachFailures :: "nat \<Rightarrow> Error list \<Rightarrow> event list" where
  "attachFailures p es = concat (map (\<lambda>e. [AttachSettles p (Inl e), SleepDone p]) es)"


subsection \<open>Suspended activations of the attach and detach sequences\<close>

text \<open>
  The state in which a suspended activation of the attach sequence (\<open>starting\<close>) or of
  the detach sequence (\<open>stopping\<close>) leaves the instance; a resume closure awaiting an
  inner call belongs to neither.
\<close>

fun taskState :: "task \<Rightarrow> DeviceLogListenerState option" where
  "taskState (AwaitAttach p) = Some Starting"
| "taskState (AwaitSleep p) = Some Starting"
| "taskState (AwaitTeardown p) = Some Stopping"
| "taskState (AwaitCall p q) = None"

definition inFlight :: "DeviceListener \<Rightarrow> task list" where
  "inFlight c = filter (\<lambda>t. taskState t \<noteq> None) (tasks c)"

definition busy :: "DeviceListener \<Rightarrow> bool" where
  "busy c = (currentState c = Starting \<or> currentState c = Stopping)"

text \<open>
  The part of an instance that the bookkeeping of subscriptions and promises never
  touches.
\<close>

definition core ::
  "DeviceListener \<Rightarrow> DeviceLogListenerState \<times> Error option \<times> token option \<times> task list
     \<times> DeviceLogListenerState list \<times> effect list \<times> nat \<times> (nat \<Rightarrow> Error + bool)" where
  "core c = (currentState c, error c, stopLogListener c, inFlight c, history c, effects c,
             connQueries c, isDeviceConnected c)"

definition simple :: "(DeviceListener \<Rightarrow> bool) \<Rightarrow> bool" where
  "simple P = (\<forall>c c'. core c' = core c \<longrightarrow> P c \<longrightarrow> P c')"

definition preserves :: "runner \<Rightarrow> (DeviceListener \<Rightarrow> bool) \<Rightarrow> bool" where
  "preserves run P = (\<forall>f c c'. P c \<longrightarrow> run f c = Some c' \<longrightarrow> P c')"

definition lifecycleInv :: "DeviceListener \<Rightarrow> bool" where
  "lifecycleInv c =
     (length (inFlight c) \<le> 1
      \<and> (\<forall>t \<in> set (inFlight c). taskState t = Some (currentState c))
      \<and> (currentState c \<in> {Active, Stopping} \<longrightarrow> stopLogListener c \<noteq> None))"


subsection \<open>Listeners that call neither start() nor stop()\<close>

text \<open>
  A listener is inert when calling it cannot reach \<open>start()\<close> or \<open>stop()\<close>: its
  guard is already set, its once-wrapper has fired, or its callback is an observer's or
  the reset of \<open>restartCnt\<close>. A state is quiet when every listener registered for it
  is inert: no call of \<open>start()\<close> or \<open>stop()\<close> waits for that state.
  \<open>callInert\<close> is what calling an inert listener does, and \<open>entered s e c\<close> is the
  instance after \<open>set(s, e)\<close> when \<open>s\<close> is quiet.
\<close>

fun callbackOf :: "listener \<Rightarrow> callback" where
  "callbackOf (Plain w) = cb w"
| "callbackOf (OnceWrapper k w) = cb w"

fun cellOf :: "listener \<Rightarrow> nat" where
  "cellOf (Plain w) = subId w"
| "cellOf (OnceWrapper k w) = subId w"

fun plain :: "callback \<Rightarrow> bool" where
  "plain (Observer k) = True"
| "plain ResetRestartCnt = True"
| "plain f = False"

fun plainBody :: "callback \<Rightarrow> DeviceListener \<Rightarrow> DeviceListener" where
  "plainBody (Observer k) c = c\<lparr>observed := observed c @ [k]\<rparr>"
| "plainBody ResetRestartCnt c = c\<lparr>restartCnt := RESTART_CNT\<rparr>"
| "plainBody f c = c"

fun inert :: "DeviceListener \<Rightarrow> listener \<Rightarrow> bool" where
  "inert c (Plain w) = (subId w \<in> executed c \<or> plain (cb w))"
| "inert c (OnceWrapper k w) = (k \<in> fired c \<or> subId w \<in> executed c \<or> plain (cb w))"

definition quiet :: "DeviceLogListenerState \<Rightarrow> DeviceListener \<Rightarrow> bool" where
  "quiet s c = (\<forall>l \<in> set (valueEmitter c s). inert c l)"

fun callInert :: "DeviceLogListenerState \<Rightarrow> listener \<Rightarrow> DeviceListener \<Rightarrow> DeviceListener" where
  "callInert s (Plain w) c =
     (if subId w \<in> executed c then c
      else plainBody (cb w) (c\<lparr>executed := insert (subId w) (executed c)\<rparr>))"
| "callInert s (OnceWrapper k w) c =
     (if k \<in> fired c then c
      else if subId w \<in> executed c then (removeWrapper s k c)\<lparr>fired := insert k (fired c)\<rparr>
      else plainBody (cb w)
             ((removeWrapper s k c)\<lparr>fired := insert k (fired c),
                                  executed := insert (subId w) (executed c)\<rparr>))"

definition entered :: "DeviceLogListenerState \<Rightarrow> Error option \<Rightarrow> DeviceListener \<Rightarrow> DeviceListener" where
  "entered s e c = fold (callInert s) (valueEmitter c s)
                     (c\<lparr>currentState := s, error := e, history := s # history c\<rparr>)"


text \<open>Projections of the result of a call, for closed statements.\<close>

definition callOutcome ::
  "(nat \<times> DeviceListener) option \<Rightarrow> (DeviceLogListenerState \<times> Error option \<times> promise option) option" where
  "callOutcome r = map_option (\<lambda>(p, c). (currentState c, error c, promises c p)) r"

definition outcome ::
  "DeviceListener option \<Rightarrow> (DeviceLogListenerState \<times> Error option \<times> token option) option" where
  "outcome r = map_option (\<lambda>c. (currentState c, error c, stopLogListener c)) r"

text \<open>
  The fresh instance after \<open>start()\<close> and a successful attach that yielded \<open>tok\<close>.
\<close>

definition attached :: "token \<Rightarrow> DeviceListener" where
  "attached tok =
     \<lparr>currentState = Active, error = None,
      valueEmitter = (\<lambda>s. [])(Active := [Plain (WrappedCb 0 ResetRestartCnt)],
                                Fatal := [Plain (WrappedCb 1 AutoRestart)]),
      executed = {0}, fired = {}, nextId = 3,
      stopLogListener = Some tok, restartCnt = RESTART_CNT,
      isDeviceConnected = alwaysConnected, connQueries = 1,
      promises = [2 \<mapsto> Resolved], tasks = [],
      effects = [CallStartListener], autoRestarts = 0,
      observed = [], history = [Active, Starting]\<rparr>"


subsection \<open>Invariants of the synchronous code\<close>

text \<open>
  What synchronous code can only increase: identifiers are only allocated, the guards and
  the \<open>fired\<close> cells are only set, the history only gets new entries in front, none
  of them \<open>fatal\<close> (only the resumed \<open>catch\<close> block of \<open>start()\<close> enters
  \<open>fatal\<close>), and the predicate is never replaced.
\<close>

definition syncGrows :: "DeviceListener \<Rightarrow> DeviceListener \<Rightarrow> bool" where
  "syncGrows c c' =
     (nextId c \<le> nextId c'
      \<and> (\<exists>hs. history c' = hs @ history c \<and> Fatal \<notin> set hs)
      \<and> executed c \<subseteq> executed c'
      \<and> fired c \<subseteq> fired c'
      \<and> autoRestarts c \<le> autoRestarts c'
      \<and> isDeviceConnected c' = isDeviceConnected c)"

text \<open>
  A once-wrapper removing itself from the array of \<open>s\<close> and marking itself fired.
\<close>

definition fire :: "DeviceLogListenerState \<Rightarrow> nat \<Rightarrow> DeviceListener \<Rightarrow> DeviceListener" where
  "fire s k c = (removeWrapper s k c)\<lparr>fired := insert k (fired c)\<rparr>"

text \<open>
  An interpreter of callbacks whose every run only increases what \<open>syncGrows\<close> lists.
\<close>

definition growing :: "runner \<Rightarrow> bool" where
  "growing run = (\<forall>f c c'. run f c = Some c' \<longrightarrow> syncGrows c c')"

text \<open>
  The promise that a suspended activation settles when it completes.
\<close>

fun taskPromise :: "task \<Rightarrow> nat" where
  "taskPromise (AwaitAttach p) = p"
| "taskPromise (AwaitSleep p) = p"
| "taskPromise (AwaitTeardown p) = p"
| "taskPromise (AwaitCall p q) = p"

text \<open>
  The states that \<open>start()\<close> and \<open>stop()\<close> enter before their first \<open>await\<close>.
\<close>

definition syncStates :: "DeviceLogListenerState set" where
  "syncStates = {Starting, Stopping, Active, Inactive, Zombie}"

text \<open>
  The proof obligations of an invariant \<open>I\<close> of the synchronous code, one per
  elementary update the source performs. \<open>A l c\<close> says that listener \<open>l\<close> may be
  called in \<open>c\<close>, \<open>J f c\<close> that the body of callback \<open>f\<close> may run in \<open>c\<close>,
  \<open>Own p c\<close> that promise \<open>p\<close> belongs to the running activation, and \<open>S\<close> is the
  set of states whose entering keeps \<open>I\<close>. \<open>A\<close> and \<open>Own\<close> must survive whatever
  synchronous code does in between.
\<close>

definition syncClosed ::
  "(DeviceListener \<Rightarrow> bool) \<Rightarrow> (listener \<Rightarrow> DeviceListener \<Rightarrow> bool)
   \<Rightarrow> (callback \<Rightarrow> DeviceListener \<Rightarrow> bool) \<Rightarrow> (nat \<Rightarrow> DeviceListener \<Rightarrow> bool)
   \<Rightarrow> DeviceLogListenerState set \<Rightarrow> bool" where
  "syncClosed I A J Own S =
     ((\<forall>c s k. I c \<longrightarrow> I (fire s k c))
      \<and> (\<forall>c l. I c \<longrightarrow> A l c \<longrightarrow> cellOf l \<notin> executed c \<longrightarrow>
             J (callbackOf l) (c\<lparr>executed := insert (cellOf l) (executed c)\<rparr>))
      \<and> (\<forall>c s e. s \<in> S \<longrightarrow> I c \<longrightarrow>
             I (c\<lparr>currentState := s, error := e, history := s # history c\<rparr>)
             \<and> (\<forall>l \<in> set (valueEmitter c s).
                   A l (c\<lparr>currentState := s, error := e, history := s # history c\<rparr>)))
      \<and> (\<forall>c. I c \<longrightarrow> I (snd (newPromise c)) \<and> Own (nextId c) (snd (newPromise c)))
      \<and> (\<forall>c p v. I c \<longrightarrow> Own p c \<longrightarrow> I (settle p v c))
      \<and> (\<forall>c p ss. I c \<longrightarrow> Own p c \<longrightarrow>
             I (snd (register ss (ResumeStart p) True c))
             \<and> I (snd (register ss (ResumeStop p) True c)))
      \<and> (\<forall>c. I c \<longrightarrow> I (c\<lparr>stopLogListener := None\<rparr>))
      \<and> (\<forall>c q. I c \<longrightarrow> I (c\<lparr>connQueries := q\<rparr>))
      \<and> (\<forall>c ef. I c \<longrightarrow> I (c\<lparr>effects := ef\<rparr>))
      \<and> (\<forall>c p. I c \<longrightarrow> Own p c \<longrightarrow>
             I (c\<lparr>tasks := tasks c @ [AwaitAttach p]\<rparr>)
             \<and> I (c\<lparr>tasks := tasks c @ [AwaitTeardown p]\<rparr>))
      \<and> (\<forall>c p q. I c \<longrightarrow> Own p c \<longrightarrow> Own q c \<longrightarrow> I (c\<lparr>tasks := tasks c @ [AwaitCall p q]\<rparr>))
      \<and> (\<forall>c. J ResetRestartCnt c \<longrightarrow> I (c\<lparr>restartCnt := RESTART_CNT\<rparr>))
      \<and> (\<forall>c. J AutoRestart c \<longrightarrow> restartCnt c \<le> 0 \<longrightarrow> I c)
      \<and> (\<forall>c. J AutoRestart c \<longrightarrow> 0 < restartCnt c \<longrightarrow>
             I (c\<lparr>autoRestarts := autoRestarts c + 1\<rparr>))
      \<and> (\<forall>c q. J (ResumeStart q) c \<longrightarrow> I c \<and> Own q c)
      \<and> (\<forall>c q. J (ResumeStop q) c \<longrightarrow> I c \<and> Own q c)
      \<and> (\<forall>c k. J (Observer k) c \<longrightarrow> I (c\<lparr>observed := observed c @ [k]\<rparr>))
      \<and> (\<forall>l c c'. A l c \<longrightarrow> syncGrows c c' \<longrightarrow> A l c')
      \<and> (\<forall>p c c'. Own p c \<longrightarrow> syncGrows c c' \<longrightarrow> Own p c'))"

text \<open>
  An interpreter of callbacks that establishes \<open>I\<close> whenever the body is allowed to run.
\<close>

definition honours :: "runner \<Rightarrow> (DeviceListener \<Rightarrow> bool) \<Rightarrow> (callback \<Rightarrow> DeviceListener \<Rightarrow> bool) \<Rightarrow> bool" where
  "honours run I J = (\<forall>f c c'. J f c \<longrightarrow> run f c = Some c' \<longrightarrow> I c')"

text \<open>
  Events restricted in the observer callbacks they may subscribe, and the obligations
  of an invariant for the updates that only resumed activations and observers perform.
\<close>

fun okEvent :: "(nat \<Rightarrow> bool) \<Rightarrow> event \<Rightarrow> bool" where
  "okEvent okObs (Subscribe once ss j) = okObs j"
| "okEvent okObs ev = True"

definition topClosed ::
  "(DeviceListener \<Rightarrow> bool) \<Rightarrow> (callback \<Rightarrow> DeviceListener \<Rightarrow> bool)
   \<Rightarrow> (nat \<Rightarrow> DeviceListener \<Rightarrow> bool) \<Rightarrow> (nat \<Rightarrow> bool) \<Rightarrow> bool" where
  "topClosed I J Own okObs =
     ((\<forall>c t. I c \<longrightarrow> I (dropTask t c))
      \<and> (\<forall>c t. I c \<longrightarrow> t \<in> set (tasks c) \<longrightarrow> Own (taskPromise t) (dropTask t c))
      \<and> (\<forall>c tok. I c \<longrightarrow> I (c\<lparr>stopLogListener := Some tok\<rparr>))
      \<and> (\<forall>c r. I c \<longrightarrow> I (c\<lparr>restartCnt := r\<rparr>))
      \<and> (\<forall>c p. I c \<longrightarrow> Own p c \<longrightarrow> I (c\<lparr>tasks := tasks c @ [AwaitSleep p]\<rparr>))
      \<and> (\<forall>c s i. I c \<longrightarrow> I (off s i c))
      \<and> (\<forall>c j ss once. okObs j \<longrightarrow> I c \<longrightarrow>
             J (Observer j) c \<and> I (snd (register ss (Observer j) once c))))"

text \<open>
  For statements about class \<open>State\<close> alone: an operation is an event of the instance
  or a direct call of \<open>State.set\<close>.
\<close>

datatype op = Event event | SetState DeviceLogListenerState "Error option"

fun applyOp :: "nat \<Rightarrow> op \<Rightarrow> DeviceListener \<Rightarrow> DeviceListener option" where
  "applyOp n (Event ev) c = step n ev c"
| "applyOp n (SetState s e) c = setState (runCallback n) s e c"

fun runOps :: "nat \<Rightarrow> op list \<Rightarrow> DeviceListener \<Rightarrow> DeviceListener option" where
  "runOps n [] c = Some c"
| "runOps n (x # xs) c = (case applyOp n x c of None \<Rightarrow> None | Some c' \<Rightarrow> runOps n xs c')"

text \<open>
  An operation that hands the observer callback \<open>k\<close> to \<open>on\<close> or \<open>once\<close>.
\<close>

fun subscribes :: "nat \<Rightarrow> op \<Rightarrow> bool" where
  "subscribes k (Event (Subscribe once ss j)) = (j = k)"
| "subscribes k x = False"

text \<open>
  No listener of the registry wraps the observer callback \<open>k\<close>.
\<close>

definition unregistered :: "nat \<Rightarrow> DeviceListener \<Rightarrow> bool" where
  "unregistered k c = (\<forall>s. \<forall>l \<in> set (valueEmitter c s). callbackOf l \<noteq> Observer k)"

text \<open>
  The observer callback \<open>k\<close> is registered nowhere and has run \<open>b\<close> times.
\<close>

definition neverFires :: "nat \<Rightarrow> nat \<Rightarrow> DeviceListener \<Rightarrow> bool" where
  "neverFires k b c = (unregistered k c \<and> count_list (observed c) k = b)"

fun okOp :: "(nat \<Rightarrow> bool) \<Rightarrow> op \<Rightarrow> bool" where
  "okOp okObs (Event ev) = okEvent okObs ev"
| "okOp okObs (SetState s e) = True"

text \<open>
  Every listener that wraps the observer callback \<open>k\<close> shares the guard cell \<open>io\<close>
  (\<open>None\<close>: there is no such listener); \<open>slack\<close> is the number of runs that guard
  still allows; \<open>firesAtMost k io b\<close> bounds the runs so far plus those still allowed
  by \<open>b\<close>, and \<open>mayRun\<close> is what holds when a callback body is entered.
\<close>

definition guarded :: "nat \<Rightarrow> nat option \<Rightarrow> DeviceListener \<Rightarrow> bool" where
  "guarded k io c =
     (\<forall>s. \<forall>l \<in> set (valueEmitter c s). callbackOf l = Observer k \<longrightarrow> Some (cellOf l) = io)"

definition slack :: "nat option \<Rightarrow> DeviceListener \<Rightarrow> nat" where
  "slack io c = (case io of None \<Rightarrow> 0 | Some i \<Rightarrow> if i \<in> executed c then 0 else 1)"

definition firesAtMost :: "nat \<Rightarrow> nat option \<Rightarrow> nat \<Rightarrow> DeviceListener \<Rightarrow> bool" where
  "firesAtMost k io b c = (guarded k io c \<and> count_list (observed c) k + slack io c \<le> b)"

definition mayRun :: "nat \<Rightarrow> nat option \<Rightarrow> nat \<Rightarrow> callback \<Rightarrow> DeviceListener \<Rightarrow> bool" where
  "mayRun k io b f c =
     (if f = Observer k
      then guarded k io c \<and> count_list (observed c) k + 1 \<le> b \<and> slack io c = 0
      else firesAtMost k io b c)"


subsection \<open>The fatal handler\<close>

text \<open>
  The constructor's \<open>fatal\<close> handler is the only listener that wraps \<open>AutoRestart\<close>,
  and it can only stand first in the array of \<open>fatal\<close>. \<open>noRestart\<close> adds that the
  handler has never called \<open>start()\<close>. \<open>entersFatal c c'\<close> says that \<open>fatal\<close> is
  among the states entered between \<open>c\<close> and \<open>c'\<close>.
\<close>

definition handlerFirst :: "DeviceListener \<Rightarrow> bool" where
  "handlerFirst c =
     ((\<forall>l \<in> set (tl (valueEmitter c Fatal)). callbackOf l \<noteq> AutoRestart)
      \<and> (\<forall>s. s \<noteq> Fatal \<longrightarrow> (\<forall>l \<in> set (valueEmitter c s). callbackOf l \<noteq> AutoRestart)))"

definition noRestart :: "DeviceListener \<Rightarrow> bool" where
  "noRestart c = (autoRestarts c = 0 \<and> handlerFirst c)"



subsection \<open>Calls that wait for a transition to end\<close>



definition reachedCount :: "DeviceLogListenerState list \<Rightarrow> nat" where
  "reachedCount h = length (filter (\<lambda>s. s = Active \<or> s = Fatal) h)"







text \<open>
  A connectivity predicate that answers \<open>true\<close> the first time it is asked and throws
  \<open>e\<close> from then on.
\<close>

definition flaky :: "Error \<Rightarrow> nat \<Rightarrow> Error + bool" where
  "flaky e q = (if q = 0 then Inr True else Inl e)"




section \<open>Unfolding the model\<close>

lemmas model_defs =
  newDeviceListener_def blank_def register_def addListener_def start_def stop_def
  newPromise_def isState_def setState_def emit_def attachLoop_def attachSettled_def
  resolve_def reject_def settle_def dropTask_def removeWrapper_def removeLast_def
  RESTART_CNT_def RESTART_SLEEP_def invokeToken_def teardownSettled_def subscribe_def
  assertNotNull_def off_def alwaysConnected_def attachFailures_def

lemma short_list_cases:
  "length es < 3 \<Longrightarrow> es = [] \<or> (\<exists>a. es = [a]) \<or> (\<exists>a b. es = [a, b])"
  by (cases es; simp; cases "tl es"; simp; cases "tl (tl es)"; auto)

section \<open>What the bookkeeping leaves alone\<close>

lemma addListeners_fields [simp]:
  "currentState (addListeners once w ss c) = currentState c"
  "error (addListeners once w ss c) = error c"
  "executed (addListeners once w ss c) = executed c"
  "fired (addListeners once w ss c) = fired c"
  "stopLogListener (addListeners once w ss c) = stopLogListener c"
  "restartCnt (addListeners once w ss c) = restartCnt c"
  "isDeviceConnected (addListeners once w ss c) = isDeviceConnected c"
  "connQueries (addListeners once w ss c) = connQueries c"
  "promises (addListeners once w ss c) = promises c"
  "tasks (addListeners once w ss c) = tasks c"
  "effects (addListeners once w ss c) = effects c"
  "autoRestarts (addListeners once w ss c) = autoRestarts c"
  "observed (addListeners once w ss c) = observed c"
  "history (addListeners once w ss c) = history c"
  by (induction once w ss c rule: addListeners.induct; simp add: addListener_def)+

lemma core_simps [simp]:
  "core (c\<lparr>executed := X\<rparr>) = core c"
  "core (c\<lparr>fired := F\<rparr>) = core c"
  "core (c\<lparr>valueEmitter := E\<rparr>) = core c"
  "core (c\<lparr>nextId := n\<rparr>) = core c"
  "core (c\<lparr>promises := ps\<rparr>) = core c"
  "core (c\<lparr>observed := obs\<rparr>) = core c"
  "core (c\<lparr>autoRestarts := a\<rparr>) = core c"
  "core (c\<lparr>restartCnt := r\<rparr>) = core c"
  "core (c\<lparr>tasks := tasks c @ [AwaitCall p q]\<rparr>) = core c"
  "core (addListeners once w ss c) = core c"
  "core (removeWrapper s k c) = core c"
  "core (addListener s l c) = core c"
  "core (off s i c) = core c"
  "core (settle p v c) = core c"
  by (simp_all add: core_def inFlight_def removeWrapper_def settle_def addListener_def off_def)

lemma simpleD: "simple P \<Longrightarrow> P c \<Longrightarrow> core c' = core c \<Longrightarrow> P c'"
  by (auto simp: simple_def)

lemma callListener_simple:
  assumes "simple P" "preserves run P" "P c" "callListener run s l c = Some c'"
  shows "P c'"
proof (cases l)
  case (Plain w)
  obtain i f where w: "w = WrappedCb i f" by (cases w)
  show ?thesis using assms Plain w
    by (auto simp: preserves_def split: if_splits dest: simpleD[where c'="c\<lparr>executed := insert i (executed c)\<rparr>"])
next
  case (OnceWrapper k w)
  obtain i f where w: "w = WrappedCb i f" by (cases w)
  have 1: "P ((removeWrapper s k c)\<lparr>fired := insert k (fired c)\<rparr>)"
    using assms(1,3) by (rule simpleD) simp
  have 2: "P ((removeWrapper s k c)\<lparr>fired := insert k (fired c), executed := X\<rparr>)" for X
    using assms(1,3) by (rule simpleD) simp
  show ?thesis using assms OnceWrapper w 1 2
    by (auto simp: preserves_def split: if_splits)
qed

lemma emitLoop_simple:
  assumes "simple P" "preserves run P"
  shows "P c \<Longrightarrow> emitLoop run s ls c = Some c' \<Longrightarrow> P c'"
proof (induction ls arbitrary: c)
  case Nil
  then show ?case by simp
next
  case (Cons l ls)
  from Cons.prems(2) obtain c1 where 1: "callListener run s l c = Some c1"
    and 2: "emitLoop run s ls c1 = Some c'"
    by (auto split: option.splits)
  from callListener_simple[OF assms Cons.prems(1) 1] have "P c1" .
  from Cons.IH[OF this 2] show ?case .
qed

lemma setState_simple:
  assumes "simple P" "preserves run P"
    and "P (c\<lparr>currentState := s, error := e, history := s # history c\<rparr>)"
    and "setState run s e c = Some c'"
  shows "P c'"
  using assms emitLoop_simple[OF assms(1,2)] by (auto simp: setState_def emit_def)


lemma busy_core: "core c' = core c \<Longrightarrow> busy c' = busy c"
  by (simp add: core_def busy_def)

lemma start_busy: "busy c \<Longrightarrow> start run c = Some (p, c') \<Longrightarrow> core c' = core c"
  by (auto simp: start_def newPromise_def isState_def subscribe_def register_def busy_def Let_def
      split: if_splits)

lemma stop_busy: "busy c \<Longrightarrow> stop run c = Some (p, c') \<Longrightarrow> core c' = core c"
  by (auto simp: stop_def newPromise_def isState_def subscribe_def register_def busy_def Let_def
      split: if_splits)

lemma runCallback_busy: "busy c \<Longrightarrow> runCallback n f c = Some c' \<Longrightarrow> core c' = core c"
proof (cases n)
  case 0
  then show "runCallback n f c = Some c' \<Longrightarrow> core c' = core c" by simp
next
  case (Suc m)
  assume b: "busy c" and r: "runCallback n f c = Some c'"
  have b': "busy (c\<lparr>autoRestarts := a\<rparr>)" for a using b by (simp add: busy_def)
  show "core c' = core c"
  proof (cases f)
    case AutoRestart
    then show ?thesis using r Suc start_busy[OF b'] by (fastforce split: if_splits)
  next
    case (ResumeStart q)
    then show ?thesis using r Suc start_busy[OF b] by (auto split: option.splits)
  next
    case (ResumeStop q)
    then show ?thesis using r Suc stop_busy[OF b] by (auto split: option.splits)
  qed (use r Suc in auto)
qed

lemma preserves_busy:
  assumes "busy c0"
  shows "preserves (runCallback n) (\<lambda>c. core c = core c0)"
  unfolding preserves_def
proof (intro allI impI)
  fix f c c' assume 1: "core c = core c0" and 2: "runCallback n f c = Some c'"
  from 1 assms have "busy c" using busy_core by blast
  from runCallback_busy[OF this 2] 1 show "core c' = core c0" by simp
qed

lemma setState_busy:
  assumes "s = Starting \<or> s = Stopping" and "setState (runCallback n) s e c = Some c'"
  shows "core c' = core (c\<lparr>currentState := s, error := e, history := s # history c\<rparr>)"
proof -
  let ?c0 = "c\<lparr>currentState := s, error := e, history := s # history c\<rparr>"
  have b: "busy ?c0" using assms(1) by (simp add: busy_def)
  have s: "simple (\<lambda>c. core c = core ?c0)" by (simp add: simple_def)
  show ?thesis
    by (rule setState_simple[OF s preserves_busy[OF b] _ assms(2)]) simp
qed

lemma simple_lifecycleInv: "simple lifecycleInv"
  by (auto simp: simple_def lifecycleInv_def core_def)

lemma attachLoop_inv:
  assumes "preserves run lifecycleInv" "lifecycleInv c" "currentState c = Starting" "inFlight c = []"
    and "attachLoop run p c = Some c'"
  shows "lifecycleInv c'"
proof -
  note ss = setState_simple[OF simple_lifecycleInv assms(1)]
  note sd = simpleD[OF simple_lifecycleInv]
  have a: "stopLogListener c \<noteq> None \<Longrightarrow> lifecycleInv (c\<lparr>currentState := Active, error := None, history := Active # history c\<rparr>)"
    using assms(2-4) by (simp add: lifecycleInv_def inFlight_def)
  have b: "lifecycleInv (c\<lparr>connQueries := q, currentState := Inactive, error := None, history := Inactive # history c\<rparr>)" for q
    using assms(2-4) by (simp add: lifecycleInv_def inFlight_def)
  have d: "lifecycleInv (c\<lparr>connQueries := q, effects := ef, tasks := tasks c @ [AwaitAttach p]\<rparr>)" for q ef
    using assms(2-4) by (simp add: lifecycleInv_def inFlight_def)
  have e: "lifecycleInv (c\<lparr>connQueries := q\<rparr>)" for q
    using assms(2-4) by (simp add: lifecycleInv_def inFlight_def)
  show ?thesis
  proof (cases "stopLogListener c \<noteq> None")
    case True
    with assms(5) obtain c1 where 1: "setState run Active None c = Some c1" and 2: "c' = resolve p c1"
      by (auto simp: attachLoop_def)
    from ss[OF a[OF True] 1] have "lifecycleInv c1" .
    then show ?thesis unfolding 2 resolve_def by (rule sd) simp
  next
    case False
    show ?thesis
    proof (cases "isDeviceConnected c (connQueries c)")
      case (Inl err)
      with False assms(5) have "c' = reject p err (c\<lparr>connQueries := connQueries c + 1\<rparr>)"
        by (auto simp: attachLoop_def)
      then show ?thesis using sd[OF e[of "connQueries c + 1"], of c'] by (simp add: reject_def)
    next
      case (Inr v)
      show ?thesis
      proof (cases v)
        case True
        with Inr False assms(5) show ?thesis using d by (auto simp: attachLoop_def)
      next
        case F: False
        with Inr False assms(5) obtain c1 where
          1: "setState run Inactive None (c\<lparr>connQueries := connQueries c + 1\<rparr>) = Some c1"
          and 2: "c' = resolve p c1"
          by (auto simp: attachLoop_def)
        have "lifecycleInv c1" by (rule ss[OF _ 1]) (use b in simp)
        then show ?thesis unfolding 2 resolve_def by (rule sd) simp
      qed
    qed
  qed
qed


lemma coreD:
  assumes "core c' = core c"
  shows "currentState c' = currentState c" "error c' = error c"
    "stopLogListener c' = stopLogListener c" "inFlight c' = inFlight c"
    "history c' = history c" "effects c' = effects c" "connQueries c' = connQueries c"
    "isDeviceConnected c' = isDeviceConnected c"
  using assms by (simp_all add: core_def)

lemma taskState_busy: "taskState t = Some s \<Longrightarrow> s = Starting \<or> s = Stopping"
  by (cases t) auto

lemma inFlight_idle:
  assumes "lifecycleInv c" "\<not> busy c"
  shows "inFlight c = []"
proof (cases "inFlight c")
  case (Cons t ts)
  with assms(1) have "taskState t = Some (currentState c)" by (simp add: lifecycleInv_def)
  from taskState_busy[OF this] assms(2) show ?thesis by (simp add: busy_def)
qed simp

lemma start_inv:
  assumes IH: "preserves (runCallback n) lifecycleInv" and inv: "lifecycleInv c"
    and st: "start (runCallback n) c = Some (p, c')"
  shows "lifecycleInv c'"
proof -
  note sd = simpleD[OF simple_lifecycleInv]
  let ?c1 = "c\<lparr>nextId := nextId c + 1, promises := (promises c)(nextId c \<mapsto> Pending)\<rparr>"
  have p: "p = nextId c" using st by (auto simp: start_def newPromise_def Let_def split: if_splits)
  have inv1: "lifecycleInv ?c1" using inv by (rule sd) simp
  show ?thesis
  proof (cases "busy c")
    case True
    from start_busy[OF True st] inv show ?thesis by (rule sd[rotated])
  next
    case nb: False
    show ?thesis
    proof (cases "currentState c = Active")
      case True
      with st have "c' = resolve p ?c1" by (auto simp: start_def newPromise_def isState_def)
      then show ?thesis using inv1 by (auto simp: resolve_def intro: sd)
    next
      case False
      let ?c2 = "?c1\<lparr>stopLogListener := None\<rparr>"
      let ?c2' = "?c2\<lparr>currentState := Starting, error := None, history := Starting # history ?c2\<rparr>"
      from st False nb obtain c3 where
        1: "setState (runCallback n) Starting None ?c2 = Some c3"
        and 2: "attachLoop (runCallback n) p c3 = Some c'"
        by (auto simp: start_def newPromise_def isState_def busy_def p split: if_splits Option.bind_splits)
      have idle: "inFlight c = []" using inFlight_idle[OF inv nb] .
      have pre: "lifecycleInv ?c2'" using idle by (simp add: lifecycleInv_def inFlight_def)
      have inv3: "lifecycleInv c3" using setState_simple[OF simple_lifecycleInv IH pre 1] .
      have core3: "core c3 = core ?c2'" using setState_busy[OF _ 1] by simp
      have "currentState c3 = Starting" "inFlight c3 = []"
        using coreD(1,4)[OF core3] idle by (simp_all add: inFlight_def)
      from attachLoop_inv[OF IH inv3 this 2] show ?thesis .
    qed
  qed
qed

lemma invokeToken_inv:
  assumes "preserves run lifecycleInv" "lifecycleInv c" "currentState c = Stopping" "inFlight c = []"
    and "invokeToken run p c = Some c'"
  shows "lifecycleInv c'"
proof -
  note ss = setState_simple[OF simple_lifecycleInv assms(1)]
  note sd = simpleD[OF simple_lifecycleInv]
  have z: "lifecycleInv (c\<lparr>effects := ef, currentState := Zombie, error := e, history := Zombie # history c\<rparr>)" for e ef
    using assms(2-4) by (simp add: lifecycleInv_def inFlight_def)
  have z': "lifecycleInv (c\<lparr>currentState := Zombie, error := e, history := Zombie # history c\<rparr>)" for e
    using assms(2-4) by (simp add: lifecycleInv_def inFlight_def)
  have t: "lifecycleInv (c\<lparr>effects := ef, tasks := tasks c @ [AwaitTeardown p]\<rparr>)" for ef
    using assms(2-4) by (simp add: lifecycleInv_def inFlight_def)
  show ?thesis
  proof (cases "stopLogListener c")
    case None
    with assms(5) obtain c1 e where 1: "setState run Zombie (Some e) c = Some c1" and 2: "c' = resolve p c1"
      by (auto simp: invokeToken_def assertNotNull_def)
    from ss[OF z' 1] have "lifecycleInv c1" .
    then show ?thesis unfolding 2 resolve_def by (rule sd) simp
  next
    case (Some tok)
    show ?thesis
    proof (cases "throwsOnCall tok")
      case None
      with Some assms(5) show ?thesis using t by (auto simp: invokeToken_def assertNotNull_def)
    next
      case (Some e)
      with \<open>stopLogListener c = Some tok\<close> assms(5) obtain c1 where
        1: "setState run Zombie (Some e) (c\<lparr>effects := effects c @ [CallToken tok]\<rparr>) = Some c1"
        and 2: "c' = resolve p c1"
        by (auto simp: invokeToken_def assertNotNull_def)
      have "lifecycleInv c1" by (rule ss[OF _ 1]) (use z in simp)
      then show ?thesis unfolding 2 resolve_def by (rule sd) simp
    qed
  qed
qed

lemma stop_inv:
  assumes IH: "preserves (runCallback n) lifecycleInv" and inv: "lifecycleInv c"
    and st: "stop (runCallback n) c = Some (p, c')"
  shows "lifecycleInv c'"
proof -
  note sd = simpleD[OF simple_lifecycleInv]
  let ?c1 = "c\<lparr>nextId := nextId c + 1, promises := (promises c)(nextId c \<mapsto> Pending)\<rparr>"
  have p: "p = nextId c" using st by (auto simp: stop_def newPromise_def Let_def split: if_splits)
  have inv1: "lifecycleInv ?c1" using inv by (rule sd) simp
  show ?thesis
  proof (cases "busy c")
    case True
    from stop_busy[OF True st] inv show ?thesis by (rule sd[rotated])
  next
    case nb: False
    show ?thesis
    proof (cases "currentState c = Active")
      case False
      with nb st have "c' = resolve p ?c1"
        by (cases "currentState c") (auto simp: stop_def newPromise_def isState_def busy_def)
      then show ?thesis using inv1 by (auto simp: resolve_def intro: sd)
    next
      case True
      let ?c2' = "?c1\<lparr>currentState := Stopping, error := None, history := Stopping # history ?c1\<rparr>"
      from st True obtain c3 where
        1: "setState (runCallback n) Stopping None ?c1 = Some c3"
        and 2: "invokeToken (runCallback n) p c3 = Some c'"
        by (auto simp: stop_def newPromise_def isState_def p split: if_splits Option.bind_splits)
      have idle: "inFlight c = []" using inFlight_idle[OF inv nb] .
      have pre: "lifecycleInv ?c2'" using idle inv True by (simp add: lifecycleInv_def inFlight_def)
      have inv3: "lifecycleInv c3" using setState_simple[OF simple_lifecycleInv IH pre 1] .
      have core3: "core c3 = core ?c2'" using setState_busy[OF _ 1] by simp
      have "currentState c3 = Stopping" "inFlight c3 = []"
        using coreD(1,4)[OF core3] idle by (simp_all add: inFlight_def)
      from invokeToken_inv[OF IH inv3 this 2] show ?thesis .
    qed
  qed
qed

lemma runCallback_inv: "preserves (runCallback n) lifecycleInv"
proof (induction n)
  case 0
  show ?case by (simp add: preserves_def)
next
  case (Suc n)
  note sd = simpleD[OF simple_lifecycleInv]
  show ?case unfolding preserves_def
  proof (intro allI impI)
    fix f c c' assume inv: "lifecycleInv c" and r: "runCallback (Suc n) f c = Some c'"
    show "lifecycleInv c'"
    proof (cases f)
      case ResetRestartCnt
      with r inv show ?thesis by (auto intro: sd)
    next
      case AutoRestart
      have "lifecycleInv (c\<lparr>autoRestarts := autoRestarts c + 1\<rparr>)" using inv by (rule sd) simp
      with AutoRestart r inv start_inv[OF Suc] show ?thesis by (auto split: if_splits)
    next
      case (ResumeStart q)
      with r obtain p c1 where 1: "start (runCallback n) c = Some (p, c1)"
        and 2: "c' = c1\<lparr>tasks := tasks c1 @ [AwaitCall q p]\<rparr>" by (auto split: option.splits)
      from start_inv[OF Suc inv 1] show ?thesis unfolding 2 by (rule sd) simp
    next
      case (ResumeStop q)
      with r obtain p c1 where 1: "stop (runCallback n) c = Some (p, c1)"
        and 2: "c' = c1\<lparr>tasks := tasks c1 @ [AwaitCall q p]\<rparr>" by (auto split: option.splits)
      from stop_inv[OF Suc inv 1] show ?thesis unfolding 2 by (rule sd) simp
    next
      case (Observer k)
      with r inv show ?thesis by (auto intro: sd)
    qed
  qed
qed


lemma inFlight_dropTask: "inFlight (dropTask t c) = remove1 t (inFlight c)"
  by (simp add: inFlight_def dropTask_def filter_remove1)

lemma inFlight_member:
  assumes "lifecycleInv c" "t \<in> set (tasks c)" "taskState t \<noteq> None"
  shows "inFlight c = [t]" "taskState t = Some (currentState c)"
proof -
  from assms(2,3) have m: "t \<in> set (inFlight c)" by (simp add: inFlight_def)
  from assms(1) have "length (inFlight c) \<le> 1" by (simp add: lifecycleInv_def)
  with m show "inFlight c = [t]" by (cases "inFlight c") auto
  from assms(1) m show "taskState t = Some (currentState c)" by (simp add: lifecycleInv_def)
qed

lemma dropTask_fields [simp]:
  "currentState (dropTask t c) = currentState c"
  "stopLogListener (dropTask t c) = stopLogListener c"
  "restartCnt (dropTask t c) = restartCnt c"
  "history (dropTask t c) = history c"
  "promises (dropTask t c) = promises c"
  by (simp_all add: dropTask_def)

lemma attachSettled_inv:
  assumes run: "preserves run lifecycleInv" and inv: "lifecycleInv c"
    and t: "AwaitAttach p \<in> set (tasks c)"
    and r: "attachSettled run p r (dropTask (AwaitAttach p) c) = Some c'"
  shows "lifecycleInv c'"
proof -
  note ss = setState_simple[OF simple_lifecycleInv run]
  note sd = simpleD[OF simple_lifecycleInv]
  let ?c1 = "dropTask (AwaitAttach p) c"
  from inFlight_member[OF inv t] have "inFlight c = [AwaitAttach p]" "currentState c = Starting" by simp_all
  then have i1: "inFlight ?c1 = []" and s1: "currentState ?c1 = Starting"
    by (simp_all add: inFlight_dropTask)
  show ?thesis
  proof (cases r)
    case (Inr tok)
    with r obtain c2 where 1: "setState run Active None (?c1\<lparr>stopLogListener := Some tok\<rparr>) = Some c2"
      and 2: "c' = resolve p c2" by (auto simp: attachSettled_def)
    have "lifecycleInv c2"
      by (rule ss[OF _ 1]) (use i1 in \<open>simp add: lifecycleInv_def inFlight_def\<close>)
    then show ?thesis unfolding 2 resolve_def by (rule sd) simp
  next
    case (Inl e)
    show ?thesis
    proof (cases "restartCnt ?c1 \<le> 0")
      case True
      with Inl r obtain c2 where 1: "setState run Fatal (Some e) ?c1 = Some c2"
        and 2: "c' = resolve p c2" by (auto simp: attachSettled_def)
      have "lifecycleInv c2"
        by (rule ss[OF _ 1]) (use i1 in \<open>simp add: lifecycleInv_def inFlight_def\<close>)
      then show ?thesis unfolding 2 resolve_def by (rule sd) simp
    next
      case False
      with Inl r have "c' = ?c1\<lparr>restartCnt := restartCnt ?c1 - 1,
          effects := effects ?c1 @ [CallSleep RESTART_SLEEP], tasks := tasks ?c1 @ [AwaitSleep p]\<rparr>"
        by (auto simp: attachSettled_def)
      then show ?thesis using i1 s1 by (simp add: lifecycleInv_def inFlight_def)
    qed
  qed
qed

lemma teardownSettled_inv:
  assumes run: "preserves run lifecycleInv" and inv: "lifecycleInv c"
    and t: "AwaitTeardown p \<in> set (tasks c)"
    and r: "teardownSettled run p r (dropTask (AwaitTeardown p) c) = Some c'"
  shows "lifecycleInv c'"
proof -
  note ss = setState_simple[OF simple_lifecycleInv run]
  note sd = simpleD[OF simple_lifecycleInv]
  let ?c1 = "dropTask (AwaitTeardown p) c"
  from inFlight_member[OF inv t] have "inFlight c = [AwaitTeardown p]" by simp
  then have i1: "inFlight ?c1 = []" by (simp add: inFlight_dropTask)
  from r obtain s e c2 where 1: "setState run s e ?c1 = Some c2" and 2: "c' = resolve p c2"
    and 3: "s = Inactive \<or> s = Zombie"
    by (cases r) (auto simp: teardownSettled_def)
  have "lifecycleInv c2"
    by (rule ss[OF _ 1]) (use i1 3 in \<open>auto simp add: lifecycleInv_def inFlight_def\<close>)
  then show ?thesis unfolding 2 resolve_def by (rule sd) simp
qed

lemma core_dispose [simp]: "core (dispose d c) = core c"
proof (cases d)
  case (Off ss i)
  have "core (fold (\<lambda>s. off s i) ss c) = core c"
    by (induction ss arbitrary: c) simp_all
  with Off show ?thesis by simp
qed simp

lemma step_inv:
  assumes inv: "lifecycleInv c" and st: "step n ev c = Some c'"
  shows "lifecycleInv c'"
proof -
  note run = runCallback_inv[of n]
  note sd = simpleD[OF simple_lifecycleInv]
  show ?thesis
  proof (cases ev)
    case CallStart
    with st start_inv[OF run inv] show ?thesis by auto
  next
    case CallStop
    with st stop_inv[OF run inv] show ?thesis by auto
  next
    case (AttachSettles p r)
    with st attachSettled_inv[OF run inv] inv show ?thesis by (auto split: if_splits)
  next
    case (SleepDone p)
    show ?thesis
    proof (cases "AwaitSleep p \<in> set (tasks c)")
      case True
      let ?c1 = "dropTask (AwaitSleep p) c"
      from inFlight_member[OF inv True] have "inFlight c = [AwaitSleep p]" "currentState c = Starting"
        by simp_all
      then have i1: "inFlight ?c1 = []" and s1: "currentState ?c1 = Starting"
        by (simp_all add: inFlight_dropTask)
      have inv1: "lifecycleInv ?c1" using i1 s1 by (simp add: lifecycleInv_def)
      from SleepDone st True have "attachLoop (runCallback n) p ?c1 = Some c'" by simp
      from attachLoop_inv[OF run inv1 s1 i1 this] show ?thesis .
    next
      case False
      with SleepDone st inv show ?thesis by simp
    qed
  next
    case (TeardownSettles p r)
    with st teardownSettled_inv[OF run inv] inv show ?thesis by (auto split: if_splits)
  next
    case (CallSettles p q)
    have "core c' = core c" using st CallSettles
      by (auto simp: resolve_def reject_def core_def inFlight_def dropTask_def settle_def filter_remove1
          split: if_splits option.splits promise.splits)
    with inv show ?thesis by (rule sd)
  next
    case (Subscribe once ss k)
    show ?thesis
    proof (cases "currentState c \<in> set ss")
      case True
      with Subscribe st obtain c1 where "runCallback n (Observer k) c = Some c1" "c' = c1"
        by (auto simp: subscribe_def split: option.splits)
      with run inv show ?thesis by (auto simp: preserves_def)
    next
      case False
      with Subscribe st have "core c' = core c" by (auto simp: subscribe_def register_def Let_def)
      with inv show ?thesis by (rule sd)
    qed
  next
    case (Unsubscribe d)
    with st have "core c' = core c" by auto
    with inv show ?thesis by (rule sd)
  qed
qed

lemma steps_inv: "lifecycleInv c \<Longrightarrow> steps n evs c = Some c' \<Longrightarrow> lifecycleInv c'"
proof (induction evs arbitrary: c)
  case (Cons ev evs)
  from Cons.prems(2) obtain c1 where 1: "step n ev c = Some c1" and 2: "steps n evs c1 = Some c'"
    by (auto split: option.splits)
  from Cons.IH[OF step_inv[OF Cons.prems(1) 1] 2] show ?case .
qed simp

lemma init_inv: "lifecycleInv (newDeviceListener conn)"
  by (simp add: lifecycleInv_def inFlight_def newDeviceListener_def blank_def register_def addListener_def)


section \<open>Quiet states\<close>

lemma runCallback_plain:
  "plain f \<Longrightarrow> runCallback (Suc n) f c = Some (plainBody f c)"
  by (cases f) simp_all

lemma callListener_inert:
  "inert c l \<Longrightarrow> callListener (runCallback (Suc n)) s l c = Some (callInert s l c)"
proof (cases l)
  case (Plain w)
  assume "inert c l"
  with Plain show ?thesis by (cases w) (auto simp: runCallback_plain simp del: runCallback.simps)
next
  case (OnceWrapper k w)
  assume "inert c l"
  with OnceWrapper show ?thesis
    by (cases w) (auto simp: runCallback_plain removeWrapper_def simp del: runCallback.simps)
qed

lemma plainBody_fields [simp]:
  "currentState (plainBody f c) = currentState c"
  "error (plainBody f c) = error c"
  "valueEmitter (plainBody f c) = valueEmitter c"
  "executed (plainBody f c) = executed c"
  "fired (plainBody f c) = fired c"
  "nextId (plainBody f c) = nextId c"
  "stopLogListener (plainBody f c) = stopLogListener c"
  "isDeviceConnected (plainBody f c) = isDeviceConnected c"
  "connQueries (plainBody f c) = connQueries c"
  "promises (plainBody f c) = promises c"
  "tasks (plainBody f c) = tasks c"
  "effects (plainBody f c) = effects c"
  "autoRestarts (plainBody f c) = autoRestarts c"
  "history (plainBody f c) = history c"
  by (cases f; simp)+

lemma callInert_fields [simp]:
  "currentState (callInert s l c) = currentState c"
  "error (callInert s l c) = error c"
  "nextId (callInert s l c) = nextId c"
  "stopLogListener (callInert s l c) = stopLogListener c"
  "isDeviceConnected (callInert s l c) = isDeviceConnected c"
  "connQueries (callInert s l c) = connQueries c"
  "promises (callInert s l c) = promises c"
  "tasks (callInert s l c) = tasks c"
  "effects (callInert s l c) = effects c"
  "autoRestarts (callInert s l c) = autoRestarts c"
  "history (callInert s l c) = history c"
  by (cases l; simp add: removeWrapper_def)+

lemma callInert_grows:
  "executed c \<subseteq> executed (callInert s l c)" "fired c \<subseteq> fired (callInert s l c)"
  by (cases l; auto simp: removeWrapper_def)+

lemma inert_mono:
  "inert c l \<Longrightarrow> executed c \<subseteq> executed c' \<Longrightarrow> fired c \<subseteq> fired c' \<Longrightarrow> inert c' l"
  by (cases l) auto

lemma emitLoop_inert:
  "\<forall>l \<in> set ls. inert c l \<Longrightarrow>
   emitLoop (runCallback (Suc n)) s ls c = Some (fold (callInert s) ls c)"
proof (induction ls arbitrary: c)
  case (Cons l ls)
  have "\<forall>l' \<in> set ls. inert (callInert s l c) l'"
    using Cons.prems callInert_grows[of c s l] by (auto intro: inert_mono)
  from Cons.IH[OF this] Cons.prems show ?case
    by (simp add: callListener_inert del: runCallback.simps)
qed simp

lemma fold_callInert_fields [simp]:
  "currentState (fold (callInert s) ls c) = currentState c"
  "error (fold (callInert s) ls c) = error c"
  "nextId (fold (callInert s) ls c) = nextId c"
  "stopLogListener (fold (callInert s) ls c) = stopLogListener c"
  "isDeviceConnected (fold (callInert s) ls c) = isDeviceConnected c"
  "connQueries (fold (callInert s) ls c) = connQueries c"
  "promises (fold (callInert s) ls c) = promises c"
  "tasks (fold (callInert s) ls c) = tasks c"
  "effects (fold (callInert s) ls c) = effects c"
  "autoRestarts (fold (callInert s) ls c) = autoRestarts c"
  "history (fold (callInert s) ls c) = history c"
  by (induction ls arbitrary: c; simp)+

lemma callInert_other: "s' \<noteq> s \<Longrightarrow> valueEmitter (callInert s l c) s' = valueEmitter c s'"
  by (cases l) (auto simp: removeWrapper_def)

lemma fold_callInert_other:
  "s' \<noteq> s \<Longrightarrow> valueEmitter (fold (callInert s) ls c) s' = valueEmitter c s'"
  by (induction ls arbitrary: c) (simp_all add: callInert_other)

lemma fold_callInert_grows:
  "executed c \<subseteq> executed (fold (callInert s) ls c)" "fired c \<subseteq> fired (fold (callInert s) ls c)"
proof (induction ls arbitrary: c)
  case (Cons l ls)
  { case 1 show ?case using Cons.IH(1)[of "callInert s l c"] callInert_grows(1)[of c s l] by auto }
  { case 2 show ?case using Cons.IH(2)[of "callInert s l c"] callInert_grows(2)[of c s l] by auto }
qed simp_all

lemma setState_quiet:
  "quiet s c \<Longrightarrow> setState (runCallback (Suc n)) s e c = Some (entered s e c)"
  unfolding setState_def emit_def entered_def quiet_def
  by (subst emitLoop_inert) (auto intro: inert_mono)

lemma quiet_entered:
  assumes "s' \<noteq> s" "quiet s' c"
  shows "quiet s' (entered s e c)"
  unfolding quiet_def
proof
  fix l assume "l \<in> set (valueEmitter (entered s e c) s')"
  then have "l \<in> set (valueEmitter c s')"
    using assms(1) by (simp add: entered_def fold_callInert_other)
  with assms(2) have "inert (c\<lparr>currentState := s, error := e, history := s # history c\<rparr>) l"
    by (auto simp: quiet_def intro: inert_mono)
  then show "inert (entered s e c) l"
    unfolding entered_def by (rule inert_mono) (rule fold_callInert_grows)+
qed


lemma inert_upd [simp]:
  "inert (c\<lparr>currentState := a1\<rparr>) l = inert c l"
  "inert (c\<lparr>error := a2\<rparr>) l = inert c l"
  "inert (c\<lparr>history := a3\<rparr>) l = inert c l"
  "inert (c\<lparr>nextId := a4\<rparr>) l = inert c l"
  "inert (c\<lparr>promises := a5\<rparr>) l = inert c l"
  "inert (c\<lparr>tasks := a6\<rparr>) l = inert c l"
  "inert (c\<lparr>effects := a7\<rparr>) l = inert c l"
  "inert (c\<lparr>stopLogListener := a8\<rparr>) l = inert c l"
  "inert (c\<lparr>connQueries := a9\<rparr>) l = inert c l"
  "inert (c\<lparr>valueEmitter := a10\<rparr>) l = inert c l"
  by (cases l; simp)+

lemma quiet_upd [simp]:
  "quiet s (c\<lparr>currentState := a1\<rparr>) = quiet s c"
  "quiet s (c\<lparr>error := a2\<rparr>) = quiet s c"
  "quiet s (c\<lparr>history := a3\<rparr>) = quiet s c"
  "quiet s (c\<lparr>nextId := a4\<rparr>) = quiet s c"
  "quiet s (c\<lparr>promises := a5\<rparr>) = quiet s c"
  "quiet s (c\<lparr>tasks := a6\<rparr>) = quiet s c"
  "quiet s (c\<lparr>effects := a7\<rparr>) = quiet s c"
  "quiet s (c\<lparr>stopLogListener := a8\<rparr>) = quiet s c"
  "quiet s (c\<lparr>connQueries := a9\<rparr>) = quiet s c"
  by (simp_all add: quiet_def)

lemma entered_fields [simp]:
  "currentState (entered s e c) = s"
  "error (entered s e c) = e"
  "nextId (entered s e c) = nextId c"
  "stopLogListener (entered s e c) = stopLogListener c"
  "isDeviceConnected (entered s e c) = isDeviceConnected c"
  "connQueries (entered s e c) = connQueries c"
  "promises (entered s e c) = promises c"
  "tasks (entered s e c) = tasks c"
  "effects (entered s e c) = effects c"
  "autoRestarts (entered s e c) = autoRestarts c"
  "history (entered s e c) = s # history c"
  by (simp_all add: entered_def)


section \<open>Case analysis of the operations\<close>

lemma start_cases [consumes 1, case_names Active Starting Stopping Attach]:
  assumes "start run c = Some (p, c')"
  obtains
    "currentState c = Active" "p = nextId c" "c' = resolve p (snd (newPromise c))"
  | "currentState c = Starting" "p = nextId c"
    "c' = snd (register [Active, Fatal] (ResumeStart p) True (snd (newPromise c)))"
  | "currentState c = Stopping" "p = nextId c"
    "c' = snd (register [Inactive, Zombie] (ResumeStart p) True (snd (newPromise c)))"
  | c2 where "currentState c \<noteq> Active" "currentState c \<noteq> Starting" "currentState c \<noteq> Stopping"
    "p = nextId c"
    "setState run Starting None ((snd (newPromise c))\<lparr>stopLogListener := None\<rparr>) = Some c2"
    "attachLoop run p c2 = Some c'"
  using assms
  by (auto simp: start_def newPromise_def isState_def subscribe_def
      split: if_splits Option.bind_splits prod.splits)

lemma stop_cases [consumes 1, case_names Stopped Stopping Starting Detach]:
  assumes "stop run c = Some (p, c')"
  obtains
    "currentState c = Inactive \<or> currentState c = Fatal \<or> currentState c = Zombie" "p = nextId c"
    "c' = resolve p (snd (newPromise c))"
  | "currentState c = Stopping" "p = nextId c"
    "c' = snd (register [Inactive, Zombie] (ResumeStop p) True (snd (newPromise c)))"
  | "currentState c = Starting" "p = nextId c"
    "c' = snd (register [Active, Fatal] (ResumeStop p) True (snd (newPromise c)))"
  | c2 where "currentState c = Active" "p = nextId c"
    "setState run Stopping None (snd (newPromise c)) = Some c2"
    "invokeToken run p c2 = Some c'"
  using assms
  by (cases "currentState c")
     (auto simp: stop_def newPromise_def isState_def subscribe_def
      split: if_splits Option.bind_splits prod.splits)

lemma attachLoop_cases [consumes 1, case_names Break Throws Absent Call]:
  assumes "attachLoop run p c = Some c'"
  obtains
    c1 where "stopLogListener c \<noteq> None" "setState run Active None c = Some c1" "c' = resolve p c1"
  | e where "stopLogListener c = None" "isDeviceConnected c (connQueries c) = Inl e"
      "c' = reject p e (c\<lparr>connQueries := connQueries c + 1\<rparr>)"
  | c1 where "stopLogListener c = None" "isDeviceConnected c (connQueries c) = Inr False"
      "setState run Inactive None (c\<lparr>connQueries := connQueries c + 1\<rparr>) = Some c1"
      "c' = resolve p c1"
  | "stopLogListener c = None" "isDeviceConnected c (connQueries c) = Inr True"
      "c' = c\<lparr>connQueries := connQueries c + 1,
               effects := effects c @ [CallStartListener],
               tasks := tasks c @ [AwaitAttach p]\<rparr>"
  using assms
  by (auto simp: attachLoop_def split: if_splits sum.splits bool.splits)

lemma invokeToken_cases [consumes 1, case_names NoToken Throws Await]:
  assumes "invokeToken run p c = Some c'"
  obtains
    e c1 where "stopLogListener c = None" "setState run Zombie (Some e) c = Some c1"
      "c' = resolve p c1"
  | tok e c1 where "stopLogListener c = Some tok" "throwsOnCall tok = Some e"
      "setState run Zombie (Some e) (c\<lparr>effects := effects c @ [CallToken tok]\<rparr>) = Some c1"
      "c' = resolve p c1"
  | tok where "stopLogListener c = Some tok" "throwsOnCall tok = None"
      "c' = c\<lparr>effects := effects c @ [CallToken tok], tasks := tasks c @ [AwaitTeardown p]\<rparr>"
  using assms
  by (auto simp: invokeToken_def assertNotNull_def split: option.splits)

lemma attachSettled_cases [consumes 1, case_names Attached Fatal Retry]:
  assumes "attachSettled run p r c = Some c'"
  obtains
    tok c1 where "r = Inr tok"
      "setState run Active None (c\<lparr>stopLogListener := Some tok\<rparr>) = Some c1" "c' = resolve p c1"
  | e c1 where "r = Inl e" "restartCnt c \<le> 0" "setState run Fatal (Some e) c = Some c1"
      "c' = resolve p c1"
  | e where "r = Inl e" "0 < restartCnt c"
      "c' = c\<lparr>restartCnt := restartCnt c - 1,
               effects := effects c @ [CallSleep RESTART_SLEEP],
               tasks := tasks c @ [AwaitSleep p]\<rparr>"
  using assms
  by (auto simp: attachSettled_def split: sum.splits if_splits)

lemma teardownSettled_cases [consumes 1, case_names Detached Zombie]:
  assumes "teardownSettled run p r c = Some c'"
  obtains
    c1 where "r = None" "setState run Inactive None c = Some c1" "c' = resolve p c1"
  | e c1 where "r = Some e" "setState run Zombie (Some e) c = Some c1" "c' = resolve p c1"
  using assms
  by (auto simp: teardownSettled_def split: option.splits)

lemma callListener_cases [consumes 1, case_names Skip Stale Run]:
  assumes "callListener run s l c = Some c'"
  obtains
    "c' = c"
  | k where "c' = fire s k c"
  | c1 where "c1 = c \<or> (\<exists>k. c1 = fire s k c)" "cellOf l \<notin> executed c"
      "run (callbackOf l) (c1\<lparr>executed := insert (cellOf l) (executed c)\<rparr>) = Some c'"
proof (cases l)
  case (Plain w)
  then show ?thesis using assms that by (cases w) (auto split: if_splits)
next
  case (OnceWrapper k w)
  then show ?thesis using assms that(1,2) that(3)[of "fire s k c"]
    by (cases w) (auto simp: fire_def removeWrapper_def split: if_splits)
qed

lemma emitLoop_rule:
  assumes "emitLoop run s ls c = Some c'" and "P ls c"
    and "\<And>l ls c c'. P (l # ls) c \<Longrightarrow> callListener run s l c = Some c' \<Longrightarrow> P ls c'"
  shows "P [] c'"
  using assms(1,2)
proof (induction ls arbitrary: c)
  case (Cons l ls)
  from Cons.prems(1) obtain c1 where 1: "callListener run s l c = Some c1"
    and 2: "emitLoop run s ls c1 = Some c'"
    by (auto split: option.splits)
  from assms(3)[OF Cons.prems(2) 1] have "P ls c1" .
  from Cons.IH[OF 2 this] show ?case .
qed simp

lemma syncGrows_refl [simp]: "syncGrows c c"
  by (simp add: syncGrows_def)

lemma syncGrows_trans: "syncGrows a b \<Longrightarrow> syncGrows b c \<Longrightarrow> syncGrows a c"
  by (fastforce simp: syncGrows_def)

lemma syncGrows_upd [simp]:
  "syncGrows c (c'\<lparr>currentState := a1\<rparr>) = syncGrows c c'"
  "syncGrows c (c'\<lparr>error := a2\<rparr>) = syncGrows c c'"
  "syncGrows c (c'\<lparr>valueEmitter := a3\<rparr>) = syncGrows c c'"
  "syncGrows c (c'\<lparr>stopLogListener := a4\<rparr>) = syncGrows c c'"
  "syncGrows c (c'\<lparr>restartCnt := a5\<rparr>) = syncGrows c c'"
  "syncGrows c (c'\<lparr>promises := a6\<rparr>) = syncGrows c c'"
  "syncGrows c (c'\<lparr>tasks := a7\<rparr>) = syncGrows c c'"
  "syncGrows c (c'\<lparr>connQueries := a8\<rparr>) = syncGrows c c'"
  "syncGrows c (c'\<lparr>effects := a9\<rparr>) = syncGrows c c'"
  "syncGrows c (c'\<lparr>observed := a10\<rparr>) = syncGrows c c'"
  by (simp_all add: syncGrows_def)

lemma syncGrows_step:
  "syncGrows c c' \<Longrightarrow> nextId c' \<le> n \<Longrightarrow> syncGrows c (c'\<lparr>nextId := n\<rparr>)"
  "syncGrows c c' \<Longrightarrow> s \<noteq> Fatal \<Longrightarrow> syncGrows c (c'\<lparr>history := s # history c'\<rparr>)"
  "syncGrows c c' \<Longrightarrow> executed c' \<subseteq> X \<Longrightarrow> syncGrows c (c'\<lparr>executed := X\<rparr>)"
  "syncGrows c c' \<Longrightarrow> fired c' \<subseteq> F \<Longrightarrow> syncGrows c (c'\<lparr>fired := F\<rparr>)"
  "syncGrows c c' \<Longrightarrow> autoRestarts c' \<le> a \<Longrightarrow> syncGrows c (c'\<lparr>autoRestarts := a\<rparr>)"
  by (auto simp: syncGrows_def)

lemma syncGrows_fire [simp]: "syncGrows c (fire s k c)"
  by (auto simp: fire_def removeWrapper_def intro!: syncGrows_step)

lemma syncGrows_settle [simp]: "syncGrows c (settle p v c') = syncGrows c c'"
  by (simp add: settle_def)

lemma syncGrows_updL [simp]:
  "syncGrows (c\<lparr>currentState := a1\<rparr>) c' = syncGrows c c'"
  "syncGrows (c\<lparr>error := a2\<rparr>) c' = syncGrows c c'"
  "syncGrows (c\<lparr>valueEmitter := a3\<rparr>) c' = syncGrows c c'"
  "syncGrows (c\<lparr>stopLogListener := a4\<rparr>) c' = syncGrows c c'"
  "syncGrows (c\<lparr>restartCnt := a5\<rparr>) c' = syncGrows c c'"
  "syncGrows (c\<lparr>promises := a6\<rparr>) c' = syncGrows c c'"
  "syncGrows (c\<lparr>tasks := a7\<rparr>) c' = syncGrows c c'"
  "syncGrows (c\<lparr>connQueries := a8\<rparr>) c' = syncGrows c c'"
  "syncGrows (c\<lparr>effects := a9\<rparr>) c' = syncGrows c c'"
  "syncGrows (c\<lparr>observed := a10\<rparr>) c' = syncGrows c c'"
  by (simp_all add: syncGrows_def)

lemma syncGrows_addListeners0: "syncGrows c (addListeners once w ss c)"
proof (induction ss arbitrary: c)
  case (Cons s ss)
  let ?c1 = "if once then (addListener s (OnceWrapper (nextId c) w) c)\<lparr>nextId := nextId c + 1\<rparr>
             else addListener s (Plain w) c"
  have "syncGrows c ?c1" by (auto simp: addListener_def intro!: syncGrows_step)
  from this Cons[of ?c1] have "syncGrows c (addListeners once w ss ?c1)"
    by (rule syncGrows_trans)
  then show ?case by simp
qed simp

lemma syncGrows_addListeners: "syncGrows c c' \<Longrightarrow> syncGrows c (addListeners once w ss c')"
  by (erule syncGrows_trans) (rule syncGrows_addListeners0)

lemma syncGrows_newPromise: "syncGrows c c' \<Longrightarrow> syncGrows c (snd (newPromise c'))"
  by (auto simp: newPromise_def intro!: syncGrows_step)

lemma syncGrows_register: "syncGrows c c' \<Longrightarrow> syncGrows c (snd (register ss f once c'))"
  by (auto simp: register_def Let_def intro!: syncGrows_addListeners syncGrows_step)

lemma callListener_grows:
  assumes "growing run" "callListener run s l c = Some c'"
  shows "syncGrows c c'"
  using assms(2)
proof (cases rule: callListener_cases)
  case (Run c1)
  from Run(1) have "syncGrows c (c1\<lparr>executed := insert (cellOf l) (executed c)\<rparr>)"
    by (auto simp: fire_def removeWrapper_def intro!: syncGrows_step)
  moreover from assms(1) Run(3) have "syncGrows (c1\<lparr>executed := insert (cellOf l) (executed c)\<rparr>) c'"
    by (simp add: growing_def)
  ultimately show ?thesis by (rule syncGrows_trans)
qed simp_all

lemma emitLoop_grows:
  assumes "growing run" "emitLoop run s ls c = Some c'"
  shows "syncGrows c c'"
  using assms(2)
proof (induction ls arbitrary: c)
  case (Cons l ls)
  from Cons.prems obtain c1 where 1: "callListener run s l c = Some c1"
    and 2: "emitLoop run s ls c1 = Some c'" by (auto split: option.splits)
  from callListener_grows[OF assms(1) 1] Cons.IH[OF 2] show ?case by (rule syncGrows_trans)
qed simp

lemma setState_grows:
  assumes "growing run" "s \<noteq> Fatal" "setState run s e c = Some c'"
  shows "syncGrows c c'"
proof -
  have "syncGrows c (c\<lparr>currentState := s, error := e, history := s # history c\<rparr>)"
    using assms(2) by (simp add: syncGrows_def)
  moreover have "syncGrows (c\<lparr>currentState := s, error := e, history := s # history c\<rparr>) c'"
    using assms(3) emitLoop_grows[OF assms(1)] by (simp add: setState_def emit_def)
  ultimately show ?thesis by (rule syncGrows_trans)
qed

lemma attachLoop_grows:
  assumes "growing run" "attachLoop run p c = Some c'"
  shows "syncGrows c c'"
  using assms(2)
proof (cases rule: attachLoop_cases)
  case (Break c1)
  with setState_grows[OF assms(1) _ Break(2)] show ?thesis by (simp add: resolve_def)
next
  case (Absent c1)
  with setState_grows[OF assms(1) _ Absent(3)] show ?thesis by (simp add: resolve_def)
qed (simp_all add: reject_def)

lemma start_grows:
  assumes "growing run" "start run c = Some (p, c')"
  shows "syncGrows c c'"
  using assms(2)
proof (cases rule: start_cases)
  case (Attach c2)
  have "syncGrows c ((snd (newPromise c))\<lparr>stopLogListener := None\<rparr>)"
    by (simp add: syncGrows_newPromise)
  from this setState_grows[OF assms(1) _ Attach(5)] have "syncGrows c c2"
    by (rule syncGrows_trans) simp
  from this attachLoop_grows[OF assms(1) Attach(6)] show ?thesis by (rule syncGrows_trans)
qed (simp_all add: resolve_def syncGrows_newPromise syncGrows_register)

lemma invokeToken_grows:
  assumes "growing run" "invokeToken run p c = Some c'"
  shows "syncGrows c c'"
  using assms(2)
proof (cases rule: invokeToken_cases)
  case (NoToken e c1)
  with setState_grows[OF assms(1) _ NoToken(2)] show ?thesis by (simp add: resolve_def)
next
  case (Throws tok e c1)
  with setState_grows[OF assms(1) _ Throws(3)] show ?thesis by (simp add: resolve_def)
qed simp

lemma stop_grows:
  assumes "growing run" "stop run c = Some (p, c')"
  shows "syncGrows c c'"
  using assms(2)
proof (cases rule: stop_cases)
  case (Detach c2)
  have "syncGrows c (snd (newPromise c))" by (simp add: syncGrows_newPromise)
  from this setState_grows[OF assms(1) _ Detach(3)] have "syncGrows c c2"
    by (rule syncGrows_trans) simp
  from this invokeToken_grows[OF assms(1) Detach(4)] show ?thesis by (rule syncGrows_trans)
qed (simp_all add: resolve_def syncGrows_newPromise syncGrows_register)

lemma runCallback_grows: "growing (runCallback n)"
proof (induction n)
  case 0
  show ?case by (simp add: growing_def)
next
  case (Suc n)
  show ?case unfolding growing_def
  proof (intro allI impI)
    fix f c c' assume r: "runCallback (Suc n) f c = Some c'"
    show "syncGrows c c'"
    proof (cases f)
      case AutoRestart
      show ?thesis
      proof (cases "restartCnt c \<le> 0")
        case False
        with AutoRestart r obtain p where
          "start (runCallback n) (c\<lparr>autoRestarts := autoRestarts c + 1\<rparr>) = Some (p, c')"
          by auto
        from start_grows[OF Suc this] show ?thesis
          by (auto simp: syncGrows_def)
      qed (use AutoRestart r in simp)
    next
      case (ResumeStart q)
      with r obtain p c1 where 1: "start (runCallback n) c = Some (p, c1)"
        and 2: "c' = c1\<lparr>tasks := tasks c1 @ [AwaitCall q p]\<rparr>" by (auto split: option.splits)
      from start_grows[OF Suc 1] show ?thesis by (simp add: 2)
    next
      case (ResumeStop q)
      with r obtain p c1 where 1: "stop (runCallback n) c = Some (p, c1)"
        and 2: "c' = c1\<lparr>tasks := tasks c1 @ [AwaitCall q p]\<rparr>" by (auto split: option.splits)
      from stop_grows[OF Suc 1] show ?thesis by (simp add: 2)
    qed (use r in auto)
  qed
qed

lemma syncClosedD:
  assumes "syncClosed I A J Own S"
  shows "I c \<Longrightarrow> I (fire s k c)"
    and "I c \<Longrightarrow> A l c \<Longrightarrow> cellOf l \<notin> executed c \<Longrightarrow> J (callbackOf l) (c\<lparr>executed := insert (cellOf l) (executed c)\<rparr>)"
    and "s \<in> S \<Longrightarrow> I c \<Longrightarrow> I (c\<lparr>currentState := s, error := e, history := s # history c\<rparr>)"
    and "s \<in> S \<Longrightarrow> I c \<Longrightarrow> l \<in> set (valueEmitter c s) \<Longrightarrow> A l (c\<lparr>currentState := s, error := e, history := s # history c\<rparr>)"
    and "I c \<Longrightarrow> I (snd (newPromise c))"
    and "I c \<Longrightarrow> Own (nextId c) (snd (newPromise c))"
    and "I c \<Longrightarrow> Own p c \<Longrightarrow> I (settle p v c)"
    and "I c \<Longrightarrow> Own p c \<Longrightarrow> I (snd (register ss (ResumeStart p) True c))"
    and "I c \<Longrightarrow> Own p c \<Longrightarrow> I (snd (register ss (ResumeStop p) True c))"
    and "I c \<Longrightarrow> I (c\<lparr>stopLogListener := None\<rparr>)"
    and "I c \<Longrightarrow> I (c\<lparr>connQueries := q\<rparr>)"
    and "I c \<Longrightarrow> I (c\<lparr>effects := ef\<rparr>)"
    and "I c \<Longrightarrow> Own p c \<Longrightarrow> I (c\<lparr>tasks := tasks c @ [AwaitAttach p]\<rparr>)"
    and "I c \<Longrightarrow> Own p c \<Longrightarrow> I (c\<lparr>tasks := tasks c @ [AwaitTeardown p]\<rparr>)"
    and "I c \<Longrightarrow> Own p c \<Longrightarrow> Own q' c \<Longrightarrow> I (c\<lparr>tasks := tasks c @ [AwaitCall p q']\<rparr>)"
    and "J ResetRestartCnt c \<Longrightarrow> I (c\<lparr>restartCnt := RESTART_CNT\<rparr>)"
    and "J AutoRestart c \<Longrightarrow> restartCnt c \<le> 0 \<Longrightarrow> I c"
    and "J AutoRestart c \<Longrightarrow> 0 < restartCnt c \<Longrightarrow> I (c\<lparr>autoRestarts := autoRestarts c + 1\<rparr>)"
    and "J (ResumeStart p) c \<Longrightarrow> I c"
    and "J (ResumeStart p) c \<Longrightarrow> Own p c"
    and "J (ResumeStop p) c \<Longrightarrow> I c"
    and "J (ResumeStop p) c \<Longrightarrow> Own p c"
    and "J (Observer j) c \<Longrightarrow> I (c\<lparr>observed := observed c @ [j]\<rparr>)"
    and "A l c \<Longrightarrow> syncGrows c c' \<Longrightarrow> A l c'"
    and "Own p c \<Longrightarrow> syncGrows c c' \<Longrightarrow> Own p c'"
proof -
  note a = assms[unfolded syncClosed_def]
  show "I c \<Longrightarrow> I (fire s k c)"
    using a[THEN conjunct1] by blast
  show "I c \<Longrightarrow> A l c \<Longrightarrow> cellOf l \<notin> executed c \<Longrightarrow> J (callbackOf l) (c\<lparr>executed := insert (cellOf l) (executed c)\<rparr>)"
    using a[THEN conjunct2, THEN conjunct1] by blast
  show "s \<in> S \<Longrightarrow> I c \<Longrightarrow> I (c\<lparr>currentState := s, error := e, history := s # history c\<rparr>)"
    using a[THEN conjunct2, THEN conjunct2, THEN conjunct1] by blast
  show "s \<in> S \<Longrightarrow> I c \<Longrightarrow> l \<in> set (valueEmitter c s) \<Longrightarrow> A l (c\<lparr>currentState := s, error := e, history := s # history c\<rparr>)"
    using a[THEN conjunct2, THEN conjunct2, THEN conjunct1] by blast
  show "I c \<Longrightarrow> I (snd (newPromise c))"
    using a[THEN conjunct2, THEN conjunct2, THEN conjunct2, THEN conjunct1] by blast
  show "I c \<Longrightarrow> Own (nextId c) (snd (newPromise c))"
    using a[THEN conjunct2, THEN conjunct2, THEN conjunct2, THEN conjunct1] by blast
  show "I c \<Longrightarrow> Own p c \<Longrightarrow> I (settle p v c)"
    using a[THEN conjunct2, THEN conjunct2, THEN conjunct2, THEN conjunct2, THEN conjunct1] by blast
  show "I c \<Longrightarrow> Own p c \<Longrightarrow> I (snd (register ss (ResumeStart p) True c))"
    using a[THEN conjunct2, THEN conjunct2, THEN conjunct2, THEN conjunct2, THEN conjunct2, THEN conjunct1] by blast
  show "I c \<Longrightarrow> Own p c \<Longrightarrow> I (snd (register ss (ResumeStop p) True c))"
    using a[THEN conjunct2, THEN conjunct2, THEN conjunct2, THEN conjunct2, THEN conjunct2, THEN conjunct1] by blast
  show "I c \<Longrightarrow> I (c\<lparr>stopLogListener := None\<rparr>)"
    using a[THEN conjunct2, THEN conjunct2, THEN conjunct2, THEN conjunct2, THEN conjunct2, THEN conjunct2, THEN conjunct1] by blast
  show "I c \<Longrightarrow> I (c\<lparr>connQueries := q\<rparr>)"
    using a[THEN conjunct2, THEN conjunct2, THEN conjunct2, THEN conjunct2, THEN conjunct2, THEN conjunct2, THEN conjunct2, THEN conjunct1] by blast
  show "I c \<Longrightarrow> I (c\<lparr>effects := ef\<rparr>)"
    using a[THEN conjunct2, THEN conjunct2, THEN conjunct2, THEN conjunct2, THEN conjunct2, THEN conjunct2, THEN conjunct2, THEN conjunct2, THEN conjunct1] by blast
  show "I c \<Longrightarrow> Own p c \<Longrightarrow> I (c\<lparr>tasks := tasks c @ [AwaitAttach p]\<rparr>)"
    using a[THEN conjunct2, THEN conjunct2, THEN conjunct2, THEN conjunct2, THEN conjunct2, THEN conjunct2, THEN conjunct2, THEN conjunct2, THEN conjunct2, THEN conjunct1] by blast
  show "I c \<Longrightarrow> Own p c \<Longrightarrow> I (c\<lparr>tasks := tasks c @ [AwaitTeardown p]\<rparr>)"
    using a[THEN conjunct2, THEN conjunct2, THEN conjunct2, THEN conjunct2, THEN conjunct2, THEN conjunct2, THEN conjunct2, THEN conjunct2, THEN conjunct2, THEN conjunct1] by blast
  show "I c \<Longrightarrow> Own p c \<Longrightarrow> Own q' c \<Longrightarrow> I (c\<lparr>tasks := tasks c @ [AwaitCall p q']\<rparr>)"
    using a[THEN conjunct2, THEN conjunct2, THEN conjunct2, THEN conjunct2, THEN conjunct2, THEN conjunct2, THEN conjunct2, THEN conjunct2, THEN conjunct2, THEN conjunct2, THEN conjunct1] by blast
  show "J ResetRestartCnt c \<Longrightarrow> I (c\<lparr>restartCnt := RESTART_CNT\<rparr>)"
    using a[THEN conjunct2, THEN conjunct2, THEN conjunct2, THEN conjunct2, THEN conjunct2, THEN conjunct2, THEN conjunct2, THEN conjunct2, THEN conjunct2, THEN conjunct2, THEN conjunct2, THEN conjunct1] by blast
  show "J AutoRestart c \<Longrightarrow> restartCnt c \<le> 0 \<Longrightarrow> I c"
    using a[THEN conjunct2, THEN conjunct2, THEN conjunct2, THEN conjunct2, THEN conjunct2, THEN conjunct2, THEN conjunct2, THEN conjunct2, THEN conjunct2, THEN conjunct2, THEN conjunct2, THEN conjunct2, THEN conjunct1] by blast
  show "J AutoRestart c \<Longrightarrow> 0 < restartCnt c \<Longrightarrow> I (c\<lparr>autoRestarts := autoRestarts c + 1\<rparr>)"
    using a[THEN conjunct2, THEN conjunct2, THEN conjunct2, THEN conjunct2, THEN conjunct2, THEN conjunct2, THEN conjunct2, THEN conjunct2, THEN conjunct2, THEN conjunct2, THEN conjunct2, THEN conjunct2, THEN conjunct2, THEN conjunct1] by blast
  show "J (ResumeStart p) c \<Longrightarrow> I c"
    using a[THEN conjunct2, THEN conjunct2, THEN conjunct2, THEN conjunct2, THEN conjunct2, THEN conjunct2, THEN conjunct2, THEN conjunct2, THEN conjunct2, THEN conjunct2, THEN conjunct2, THEN conjunct2, THEN conjunct2, THEN conjunct2, THEN conjunct1] by blast
  show "J (ResumeStart p) c \<Longrightarrow> Own p c"
    using a[THEN conjunct2, THEN conjunct2, THEN conjunct2, THEN conjunct2, THEN conjunct2, THEN conjunct2, THEN conjunct2, THEN conjunct2, THEN conjunct2, THEN conjunct2, THEN conjunct2, THEN conjunct2, THEN conjunct2, THEN conjunct2, THEN conjunct1] by blast
  show "J (ResumeStop p) c \<Longrightarrow> I c"
    using a[THEN conjunct2, THEN conjunct2, THEN conjunct2, THEN conjunct2, THEN conjunct2, THEN conjunct2, THEN conjunct2, THEN conjunct2, THEN conjunct2, THEN conjunct2, THEN conjunct2, THEN conjunct2, THEN conjunct2, THEN conjunct2, THEN conjunct2, THEN conjunct1] by blast
  show "J (ResumeStop p) c \<Longrightarrow> Own p c"
    using a[THEN conjunct2, THEN conjunct2, THEN conjunct2, THEN conjunct2, THEN conjunct2, THEN conjunct2, THEN conjunct2, THEN conjunct2, THEN conjunct2, THEN conjunct2, THEN conjunct2, THEN conjunct2, THEN conjunct2, THEN conjunct2, THEN conjunct2, THEN conjunct1] by blast
  show "J (Observer j) c \<Longrightarrow> I (c\<lparr>observed := observed c @ [j]\<rparr>)"
    using a[THEN conjunct2, THEN conjunct2, THEN conjunct2, THEN conjunct2, THEN conjunct2, THEN conjunct2, THEN conjunct2, THEN conjunct2, THEN conjunct2, THEN conjunct2, THEN conjunct2, THEN conjunct2, THEN conjunct2, THEN conjunct2, THEN conjunct2, THEN conjunct2, THEN conjunct1] by blast
  show "A l c \<Longrightarrow> syncGrows c c' \<Longrightarrow> A l c'"
    using a[THEN conjunct2, THEN conjunct2, THEN conjunct2, THEN conjunct2, THEN conjunct2, THEN conjunct2, THEN conjunct2, THEN conjunct2, THEN conjunct2, THEN conjunct2, THEN conjunct2, THEN conjunct2, THEN conjunct2, THEN conjunct2, THEN conjunct2, THEN conjunct2, THEN conjunct2, THEN conjunct1] by blast
  show "Own p c \<Longrightarrow> syncGrows c c' \<Longrightarrow> Own p c'"
    using a[THEN conjunct2, THEN conjunct2, THEN conjunct2, THEN conjunct2, THEN conjunct2, THEN conjunct2, THEN conjunct2, THEN conjunct2, THEN conjunct2, THEN conjunct2, THEN conjunct2, THEN conjunct2, THEN conjunct2, THEN conjunct2, THEN conjunct2, THEN conjunct2, THEN conjunct2, THEN conjunct2] by blast
qed

lemma callListener_gen:
  assumes cl: "syncClosed I A J Own S" and run: "honours run I J"
    and "I c" "A l c" "callListener run s l c = Some c'"
  shows "I c'"
  using assms(5)
proof (cases rule: callListener_cases)
  case Skip
  with assms(3) show ?thesis by simp
next
  case (Stale k)
  with syncClosedD(1)[OF cl assms(3)] show ?thesis by simp
next
  case (Run c1)
  from Run(1) have 1: "I c1" using assms(3) syncClosedD(1)[OF cl assms(3)] by auto
  from Run(1) have g: "syncGrows c c1" by auto
  have 2: "A l c1" using syncClosedD(24)[OF cl assms(4) g] .
  from Run(1) have e: "executed c1 = executed c" by (auto simp: fire_def removeWrapper_def)
  from syncClosedD(2)[OF cl 1 2] Run(2) e
  have "J (callbackOf l) (c1\<lparr>executed := insert (cellOf l) (executed c)\<rparr>)" by simp
  with run Run(3) show ?thesis by (auto simp: honours_def)
qed

lemma emitLoop_gen:
  assumes cl: "syncClosed I A J Own S" and run: "honours run I J" and gr: "growing run"
    and "I c" "\<forall>l \<in> set ls. A l c" "emitLoop run s ls c = Some c'"
  shows "I c'"
proof -
  have "(\<lambda>ls c. I c \<and> (\<forall>l \<in> set ls. A l c)) [] c'"
  proof (rule emitLoop_rule[OF assms(6)])
    show "I c \<and> (\<forall>l \<in> set ls. A l c)" using assms(4,5) by simp
  next
    fix l ls c c'
    assume a: "I c \<and> (\<forall>l \<in> set (l # ls). A l c)" and b: "callListener run s l c = Some c'"
    from a have "I c" "A l c" by simp_all
    from callListener_gen[OF cl run this b] have "I c'" .
    moreover have "\<forall>l' \<in> set ls. A l' c'"
      using a syncClosedD(24)[OF cl _ callListener_grows[OF gr b]] by simp
    ultimately show "I c' \<and> (\<forall>l \<in> set ls. A l c')" by simp
  qed
  then show ?thesis by simp
qed

lemma setState_gen:
  assumes cl: "syncClosed I A J Own S" and run: "honours run I J" and gr: "growing run"
    and "s \<in> S" "I c" "setState run s e c = Some c'"
  shows "I c'"
proof -
  let ?c0 = "c\<lparr>currentState := s, error := e, history := s # history c\<rparr>"
  have 1: "I ?c0" using syncClosedD(3)[OF cl assms(4,5)] .
  have 2: "\<forall>l \<in> set (valueEmitter ?c0 s). A l ?c0"
    using syncClosedD(4)[OF cl assms(4,5)] by simp
  from assms(6) have "emitLoop run s (valueEmitter ?c0 s) ?c0 = Some c'"
    by (simp add: setState_def emit_def)
  from emitLoop_gen[OF cl run gr 1 2 this] show ?thesis .
qed

lemma attachLoop_gen:
  assumes cl: "syncClosed I A J Own S" and run: "honours run I J" and gr: "growing run"
    and S: "Active \<in> S" "Inactive \<in> S"
    and "I c" "Own p c" "attachLoop run p c = Some c'"
  shows "I c'"
  using assms(8)
proof (cases rule: attachLoop_cases)
  case (Break c1)
  from setState_gen[OF cl run gr S(1) assms(6) Break(2)] have 1: "I c1" .
  from syncClosedD(25)[OF cl assms(7) setState_grows[OF gr _ Break(2)]] have "Own p c1" by simp
  from syncClosedD(7)[OF cl 1 this] Break(3) show ?thesis by (simp add: resolve_def)
next
  case (Throws e)
  have 1: "I (c\<lparr>connQueries := connQueries c + 1\<rparr>)" using syncClosedD(11)[OF cl assms(6)] .
  have "Own p (c\<lparr>connQueries := connQueries c + 1\<rparr>)"
    by (rule syncClosedD(25)[OF cl assms(7)]) simp
  from syncClosedD(7)[OF cl 1 this] Throws(3) show ?thesis by (simp add: reject_def)
next
  case (Absent c1)
  have 0: "I (c\<lparr>connQueries := connQueries c + 1\<rparr>)" using syncClosedD(11)[OF cl assms(6)] .
  from setState_gen[OF cl run gr S(2) 0 Absent(3)] have 1: "I c1" .
  have "syncGrows c c1" using setState_grows[OF gr _ Absent(3)] by simp
  from syncClosedD(25)[OF cl assms(7) this] have "Own p c1" .
  from syncClosedD(7)[OF cl 1 this] Absent(4) show ?thesis by (simp add: resolve_def)
next
  case Call
  let ?c1 = "c\<lparr>connQueries := connQueries c + 1\<rparr>"
  let ?c2 = "?c1\<lparr>effects := effects c @ [CallStartListener]\<rparr>"
  have 1: "I ?c2" using syncClosedD(12)[OF cl syncClosedD(11)[OF cl assms(6)]] .
  have "Own p ?c2" by (rule syncClosedD(25)[OF cl assms(7)]) simp
  from syncClosedD(13)[OF cl 1 this] Call(3) show ?thesis by simp
qed

lemma start_gen:
  assumes cl: "syncClosed I A J Own S" and run: "honours run I J" and gr: "growing run"
    and S: "syncStates \<subseteq> S"
    and "I c" "start run c = Some (p, c')"
  shows "I c' \<and> Own p c'"
proof -
  let ?c1 = "snd (newPromise c)"
  have 1: "I ?c1" using syncClosedD(5)[OF cl assms(5)] .
  have own: "Own (nextId c) ?c1" using syncClosedD(6)[OF cl assms(5)] .
  have i: "I c'"
    using assms(6)
  proof (cases rule: start_cases)
    case Active
    with syncClosedD(7)[OF cl 1 own] show ?thesis by (simp add: resolve_def)
  next
    case Starting
    with syncClosedD(8)[OF cl 1 own] show ?thesis by simp
  next
    case Stopping
    with syncClosedD(8)[OF cl 1 own] show ?thesis by simp
  next
    case (Attach c2)
    let ?c1' = "?c1\<lparr>stopLogListener := None\<rparr>"
    have 2: "I ?c1'" using syncClosedD(10)[OF cl 1] .
    have s: "Starting \<in> S" "Active \<in> S" "Inactive \<in> S" using S by (auto simp: syncStates_def)
    from setState_gen[OF cl run gr s(1) 2 Attach(5)] have 3: "I c2" .
    have "syncGrows ?c1 c2" using setState_grows[OF gr _ Attach(5)] by simp
    from syncClosedD(25)[OF cl own this] Attach(4) have "Own p c2" by simp
    from attachLoop_gen[OF cl run gr s(2,3) 3 this Attach(6)] show ?thesis .
  qed
  have p: "p = nextId c" using assms(6) by (cases rule: start_cases) simp_all
  have "syncGrows ?c1 c'"
    using assms(6)
  proof (cases rule: start_cases)
    case (Attach c2)
    have "syncGrows ?c1 c2" using setState_grows[OF gr _ Attach(5)] by simp
    from this attachLoop_grows[OF gr Attach(6)] show ?thesis by (rule syncGrows_trans)
  qed (simp_all add: resolve_def syncGrows_register)
  from syncClosedD(25)[OF cl own this] i p show ?thesis by simp
qed

lemma invokeToken_gen:
  assumes cl: "syncClosed I A J Own S" and run: "honours run I J" and gr: "growing run"
    and S: "Zombie \<in> S"
    and "I c" "Own p c" "invokeToken run p c = Some c'"
  shows "I c'"
  using assms(7)
proof (cases rule: invokeToken_cases)
  case (NoToken e c1)
  from setState_gen[OF cl run gr S assms(5) NoToken(2)] have 1: "I c1" .
  from syncClosedD(25)[OF cl assms(6) setState_grows[OF gr _ NoToken(2)]] have "Own p c1" by simp
  from syncClosedD(7)[OF cl 1 this] NoToken(3) show ?thesis by (simp add: resolve_def)
next
  case (Throws tok e c1)
  have 0: "I (c\<lparr>effects := effects c @ [CallToken tok]\<rparr>)" using syncClosedD(12)[OF cl assms(5)] .
  from setState_gen[OF cl run gr S 0 Throws(3)] have 1: "I c1" .
  have "syncGrows c c1" using setState_grows[OF gr _ Throws(3)] by simp
  from syncClosedD(25)[OF cl assms(6) this] have "Own p c1" .
  from syncClosedD(7)[OF cl 1 this] Throws(4) show ?thesis by (simp add: resolve_def)
next
  case (Await tok)
  let ?c2 = "c\<lparr>effects := effects c @ [CallToken tok]\<rparr>"
  have 1: "I ?c2" using syncClosedD(12)[OF cl assms(5)] .
  have "Own p ?c2" by (rule syncClosedD(25)[OF cl assms(6)]) simp
  from syncClosedD(14)[OF cl 1 this] Await(3) show ?thesis by simp
qed

lemma stop_gen:
  assumes cl: "syncClosed I A J Own S" and run: "honours run I J" and gr: "growing run"
    and S: "syncStates \<subseteq> S"
    and "I c" "stop run c = Some (p, c')"
  shows "I c' \<and> Own p c'"
proof -
  let ?c1 = "snd (newPromise c)"
  have 1: "I ?c1" using syncClosedD(5)[OF cl assms(5)] .
  have own: "Own (nextId c) ?c1" using syncClosedD(6)[OF cl assms(5)] .
  have i: "I c'"
    using assms(6)
  proof (cases rule: stop_cases)
    case Stopped
    with syncClosedD(7)[OF cl 1 own] show ?thesis by (simp add: resolve_def)
  next
    case Starting
    with syncClosedD(9)[OF cl 1 own] show ?thesis by simp
  next
    case Stopping
    with syncClosedD(9)[OF cl 1 own] show ?thesis by simp
  next
    case (Detach c2)
    have s: "Stopping \<in> S" "Zombie \<in> S" using S by (auto simp: syncStates_def)
    from setState_gen[OF cl run gr s(1) 1 Detach(3)] have 3: "I c2" .
    have "syncGrows ?c1 c2" using setState_grows[OF gr _ Detach(3)] by simp
    from syncClosedD(25)[OF cl own this] Detach(2) have "Own p c2" by simp
    from invokeToken_gen[OF cl run gr s(2) 3 this Detach(4)] show ?thesis .
  qed
  have p: "p = nextId c" using assms(6) by (cases rule: stop_cases) simp_all
  have "syncGrows ?c1 c'"
    using assms(6)
  proof (cases rule: stop_cases)
    case (Detach c2)
    have "syncGrows ?c1 c2" using setState_grows[OF gr _ Detach(3)] by simp
    from this invokeToken_grows[OF gr Detach(4)] show ?thesis by (rule syncGrows_trans)
  qed (simp_all add: resolve_def syncGrows_register)
  from syncClosedD(25)[OF cl own this] i p show ?thesis by simp
qed

lemma runCallback_gen:
  assumes cl: "syncClosed I A J Own S" and S: "syncStates \<subseteq> S"
  shows "honours (runCallback n) I J"
proof (induction n)
  case 0
  show ?case by (simp add: honours_def)
next
  case (Suc n)
  note gr = runCallback_grows[of n]
  show ?case unfolding honours_def
  proof (intro allI impI)
    fix f c c' assume j: "J f c" and r: "runCallback (Suc n) f c = Some c'"
    show "I c'"
    proof (cases f)
      case ResetRestartCnt
      with r j syncClosedD(16)[OF cl] show ?thesis by auto
    next
      case AutoRestart
      show ?thesis
      proof (cases "restartCnt c \<le> 0")
        case True
        with AutoRestart r j syncClosedD(17)[OF cl] show ?thesis by auto
      next
        case False
        with AutoRestart r obtain p where
          1: "start (runCallback n) (c\<lparr>autoRestarts := autoRestarts c + 1\<rparr>) = Some (p, c')"
          by auto
        have "I (c\<lparr>autoRestarts := autoRestarts c + 1\<rparr>)"
          using syncClosedD(18)[OF cl] j AutoRestart False by auto
        from start_gen[OF cl Suc gr S this 1] show ?thesis by simp
      qed
    next
      case (ResumeStart q)
      with r obtain p c1 where 1: "start (runCallback n) c = Some (p, c1)"
        and 2: "c' = c1\<lparr>tasks := tasks c1 @ [AwaitCall q p]\<rparr>" by (auto split: option.splits)
      from j ResumeStart have i: "I c" and o: "Own q c"
        using syncClosedD(19,20)[OF cl] by auto
      from start_gen[OF cl Suc gr S i 1] have 3: "I c1" "Own p c1" by simp_all
      from syncClosedD(25)[OF cl o start_grows[OF gr 1]] have "Own q c1" .
      from syncClosedD(15)[OF cl 3(1) this 3(2)] show ?thesis by (simp add: 2)
    next
      case (ResumeStop q)
      with r obtain p c1 where 1: "stop (runCallback n) c = Some (p, c1)"
        and 2: "c' = c1\<lparr>tasks := tasks c1 @ [AwaitCall q p]\<rparr>" by (auto split: option.splits)
      from j ResumeStop have i: "I c" and o: "Own q c"
        using syncClosedD(21,22)[OF cl] by auto
      from stop_gen[OF cl Suc gr S i 1] have 3: "I c1" "Own p c1" by simp_all
      from syncClosedD(25)[OF cl o stop_grows[OF gr 1]] have "Own q c1" .
      from syncClosedD(15)[OF cl 3(1) this 3(2)] show ?thesis by (simp add: 2)
    next
      case (Observer k)
      with r j syncClosedD(23)[OF cl] show ?thesis by auto
    qed
  qed
qed

lemma topClosedD:
  assumes "topClosed I J Own okObs"
  shows "I c \<Longrightarrow> I (dropTask t c)"
    and "I c \<Longrightarrow> t \<in> set (tasks c) \<Longrightarrow> Own (taskPromise t) (dropTask t c)"
    and "I c \<Longrightarrow> I (c\<lparr>stopLogListener := Some tok\<rparr>)"
    and "I c \<Longrightarrow> I (c\<lparr>restartCnt := r\<rparr>)"
    and "I c \<Longrightarrow> Own p c \<Longrightarrow> I (c\<lparr>tasks := tasks c @ [AwaitSleep p]\<rparr>)"
    and "I c \<Longrightarrow> I (off s i c)"
    and "okObs j \<Longrightarrow> I c \<Longrightarrow> J (Observer j) c"
    and "okObs j \<Longrightarrow> I c \<Longrightarrow> I (snd (register ss (Observer j) once c))"
proof -
  note a = assms[unfolded topClosed_def]
  show "I c \<Longrightarrow> I (dropTask t c)" using a[THEN conjunct1] by blast
  show "I c \<Longrightarrow> t \<in> set (tasks c) \<Longrightarrow> Own (taskPromise t) (dropTask t c)"
    using a[THEN conjunct2, THEN conjunct1] by blast
  show "I c \<Longrightarrow> I (c\<lparr>stopLogListener := Some tok\<rparr>)"
    using a[THEN conjunct2, THEN conjunct2, THEN conjunct1] by blast
  show "I c \<Longrightarrow> I (c\<lparr>restartCnt := r\<rparr>)"
    using a[THEN conjunct2, THEN conjunct2, THEN conjunct2, THEN conjunct1] by blast
  show "I c \<Longrightarrow> Own p c \<Longrightarrow> I (c\<lparr>tasks := tasks c @ [AwaitSleep p]\<rparr>)"
    using a[THEN conjunct2, THEN conjunct2, THEN conjunct2, THEN conjunct2, THEN conjunct1] by blast
  show "I c \<Longrightarrow> I (off s i c)"
    using a[THEN conjunct2, THEN conjunct2, THEN conjunct2, THEN conjunct2, THEN conjunct2,
        THEN conjunct1] by blast
  show "okObs j \<Longrightarrow> I c \<Longrightarrow> J (Observer j) c"
    using a[THEN conjunct2, THEN conjunct2, THEN conjunct2, THEN conjunct2, THEN conjunct2,
        THEN conjunct2] by blast
  show "okObs j \<Longrightarrow> I c \<Longrightarrow> I (snd (register ss (Observer j) once c))"
    using a[THEN conjunct2, THEN conjunct2, THEN conjunct2, THEN conjunct2, THEN conjunct2,
        THEN conjunct2] by blast
qed

lemma dispose_gen:
  assumes "\<And>c s i. I c \<Longrightarrow> I (off s i c)" "I c"
  shows "I (dispose d c)"
proof (cases d)
  case (Off ss i)
  have "I (fold (\<lambda>s. off s i) ss c)" using assms(2)
    by (induction ss arbitrary: c) (simp_all add: assms(1))
  with Off show ?thesis by simp
qed (simp add: assms(2))

lemma syncGrows_dropTask [simp]: "syncGrows c (dropTask t c)"
  by (simp add: dropTask_def)

lemma step_gen:
  assumes cl: "syncClosed I A J Own S" and tcl: "topClosed I J Own okObs"
    and S: "syncStates \<subseteq> S"
    and fatal: "\<And>c e c' p. I c \<Longrightarrow> Own p c \<Longrightarrow> restartCnt c \<le> 0 \<Longrightarrow>
                  setState (runCallback n) Fatal (Some e) c = Some c' \<Longrightarrow> I c' \<and> Own p c'"
    and i: "I c" and ok: "okEvent okObs ev" and st: "step n ev c = Some c'"
  shows "I c'"
proof -
  note run = runCallback_gen[OF cl S, of n]
  note gr = runCallback_grows[of n]
  have s: "Active \<in> S" "Inactive \<in> S" "Zombie \<in> S" using S by (auto simp: syncStates_def)
  show ?thesis
  proof (cases ev)
    case CallStart
    with st obtain p where "start (runCallback n) c = Some (p, c')" by auto
    from start_gen[OF cl run gr S i this] show ?thesis by simp
  next
    case CallStop
    with st obtain p where "stop (runCallback n) c = Some (p, c')" by auto
    from stop_gen[OF cl run gr S i this] show ?thesis by simp
  next
    case (AttachSettles p r)
    show ?thesis
    proof (cases "AwaitAttach p \<in> set (tasks c)")
      case False
      with AttachSettles st i show ?thesis by simp
    next
      case True
      let ?c1 = "dropTask (AwaitAttach p) c"
      have 1: "I ?c1" using topClosedD(1)[OF tcl i] .
      have o1: "Own p ?c1" using topClosedD(2)[OF tcl i True] by simp
      from AttachSettles st True have "attachSettled (runCallback n) p r ?c1 = Some c'" by simp
      then show ?thesis
      proof (cases rule: attachSettled_cases)
        case (Attached tok c2)
        have 2: "I (?c1\<lparr>stopLogListener := Some tok\<rparr>)" using topClosedD(3)[OF tcl 1] .
        from setState_gen[OF cl run gr s(1) 2 Attached(2)] have 3: "I c2" .
        have "syncGrows ?c1 c2" using setState_grows[OF gr _ Attached(2)] by simp
        from syncClosedD(25)[OF cl o1 this] have "Own p c2" .
        from syncClosedD(7)[OF cl 3 this] Attached(3) show ?thesis by (simp add: resolve_def)
      next
        case (Fatal e c2)
        from fatal[OF 1 o1 Fatal(2,3)] have "I c2" "Own p c2" by simp_all
        from syncClosedD(7)[OF cl this] Fatal(4) show ?thesis by (simp add: resolve_def)
      next
        case (Retry e)
        let ?c2 = "?c1\<lparr>restartCnt := restartCnt ?c1 - 1\<rparr>"
        let ?c3 = "?c2\<lparr>effects := effects ?c1 @ [CallSleep RESTART_SLEEP]\<rparr>"
        have 3: "I ?c3" using syncClosedD(12)[OF cl topClosedD(4)[OF tcl 1]] .
        have "Own p ?c3" by (rule syncClosedD(25)[OF cl o1]) simp
        from topClosedD(5)[OF tcl 3 this] Retry(3) show ?thesis by simp
      qed
    qed
  next
    case (SleepDone p)
    show ?thesis
    proof (cases "AwaitSleep p \<in> set (tasks c)")
      case False
      with SleepDone st i show ?thesis by simp
    next
      case True
      let ?c1 = "dropTask (AwaitSleep p) c"
      have 1: "I ?c1" using topClosedD(1)[OF tcl i] .
      have o1: "Own p ?c1" using topClosedD(2)[OF tcl i True] by simp
      from SleepDone st True have "attachLoop (runCallback n) p ?c1 = Some c'" by simp
      from attachLoop_gen[OF cl run gr s(1,2) 1 o1 this] show ?thesis .
    qed
  next
    case (TeardownSettles p r)
    show ?thesis
    proof (cases "AwaitTeardown p \<in> set (tasks c)")
      case False
      with TeardownSettles st i show ?thesis by simp
    next
      case True
      let ?c1 = "dropTask (AwaitTeardown p) c"
      have 1: "I ?c1" using topClosedD(1)[OF tcl i] .
      have o1: "Own p ?c1" using topClosedD(2)[OF tcl i True] by simp
      from TeardownSettles st True have "teardownSettled (runCallback n) p r ?c1 = Some c'" by simp
      then show ?thesis
      proof (cases rule: teardownSettled_cases)
        case (Detached c2)
        from setState_gen[OF cl run gr s(2) 1 Detached(2)] have 3: "I c2" .
        from syncClosedD(25)[OF cl o1 setState_grows[OF gr _ Detached(2)]] have "Own p c2" by simp
        from syncClosedD(7)[OF cl 3 this] Detached(3) show ?thesis by (simp add: resolve_def)
      next
        case (Zombie e c2)
        from setState_gen[OF cl run gr s(3) 1 Zombie(2)] have 3: "I c2" .
        from syncClosedD(25)[OF cl o1 setState_grows[OF gr _ Zombie(2)]] have "Own p c2" by simp
        from syncClosedD(7)[OF cl 3 this] Zombie(3) show ?thesis by (simp add: resolve_def)
      qed
    qed
  next
    case (CallSettles p q)
    show ?thesis
    proof (cases "AwaitCall p q \<in> set (tasks c)")
      case False
      with CallSettles st i show ?thesis by simp
    next
      case True
      let ?c1 = "dropTask (AwaitCall p q) c"
      have 1: "I ?c1" using topClosedD(1)[OF tcl i] .
      have o1: "Own p ?c1" using topClosedD(2)[OF tcl i True] by simp
      from CallSettles st True i syncClosedD(7)[OF cl 1 o1] show ?thesis
        by (auto simp: resolve_def reject_def split: option.splits promise.splits)
    qed
  next
    case (Subscribe once ss j)
    with ok have oj: "okObs j" by simp
    show ?thesis
    proof (cases "currentState c \<in> set ss")
      case True
      with Subscribe st have "runCallback n (Observer j) c = Some c'"
        by (auto simp: subscribe_def split: option.splits)
      with run topClosedD(7)[OF tcl oj i] show ?thesis by (auto simp: honours_def)
    next
      case False
      with Subscribe st have "c' = snd (register ss (Observer j) once c)"
        by (auto simp: subscribe_def)
      with topClosedD(8)[OF tcl oj i] show ?thesis by simp
    qed
  next
    case (Unsubscribe d)
    with st have "c' = dispose d c" by simp
    with dispose_gen[of I, OF topClosedD(6)[OF tcl] i] show ?thesis by simp
  qed
qed

lemma removeFirst_subset: "set (removeFirst P xs) \<subseteq> set xs"
  by (induction xs) auto

lemma removeLast_subset: "set (removeLast P xs) \<subseteq> set xs"
  using removeFirst_subset[of P "rev xs"] by (simp add: removeLast_def)

lemma fire_listeners: "l \<in> set (valueEmitter (fire s k c) s') \<Longrightarrow> l \<in> set (valueEmitter c s')"
  using removeLast_subset by (fastforce simp: fire_def removeWrapper_def split: if_splits)

lemma off_listeners: "l \<in> set (valueEmitter (off s i c) s') \<Longrightarrow> l \<in> set (valueEmitter c s')"
  using removeLast_subset by (fastforce simp: off_def split: if_splits)

lemma addListeners_listeners:
  "l \<in> set (valueEmitter (addListeners once w ss c) s) \<Longrightarrow>
   l \<in> set (valueEmitter c s) \<or> (callbackOf l = cb w \<and> cellOf l = subId w \<and> s \<in> set ss)"
  by (induction once w ss c rule: addListeners.induct)
     (auto simp: addListener_def split: if_splits)

lemma register_listeners:
  "l \<in> set (valueEmitter (snd (register ss f once c)) s) \<Longrightarrow>
   l \<in> set (valueEmitter c s) \<or> (callbackOf l = f \<and> cellOf l = nextId c \<and> s \<in> set ss)"
  by (auto simp: register_def Let_def dest!: addListeners_listeners)

lemma register_fields [simp]:
  "observed (snd (register ss f once c)) = observed c"
  "executed (snd (register ss f once c)) = executed c"
  "promises (snd (register ss f once c)) = promises c"
  "tasks (snd (register ss f once c)) = tasks c"
  "history (snd (register ss f once c)) = history c"
  "autoRestarts (snd (register ss f once c)) = autoRestarts c"
  "currentState (snd (register ss f once c)) = currentState c"
  by (simp_all add: register_def Let_def)

lemma fire_fields [simp]:
  "observed (fire s k c) = observed c"
  "executed (fire s k c) = executed c"
  "promises (fire s k c) = promises c"
  "tasks (fire s k c) = tasks c"
  "history (fire s k c) = history c"
  "autoRestarts (fire s k c) = autoRestarts c"
  "nextId (fire s k c) = nextId c"
  by (simp_all add: fire_def removeWrapper_def)

lemma newPromise_fields [simp]:
  "valueEmitter (snd (newPromise c)) = valueEmitter c"
  "observed (snd (newPromise c)) = observed c"
  "executed (snd (newPromise c)) = executed c"
  "tasks (snd (newPromise c)) = tasks c"
  "history (snd (newPromise c)) = history c"
  "autoRestarts (snd (newPromise c)) = autoRestarts c"
  "nextId (snd (newPromise c)) = nextId c + 1"
  "promises (snd (newPromise c)) = (promises c)(nextId c \<mapsto> Pending)"
  by (simp_all add: newPromise_def)

lemma settle_fields [simp]:
  "valueEmitter (settle p v c) = valueEmitter c"
  "observed (settle p v c) = observed c"
  "executed (settle p v c) = executed c"
  "tasks (settle p v c) = tasks c"
  "history (settle p v c) = history c"
  "autoRestarts (settle p v c) = autoRestarts c"
  "nextId (settle p v c) = nextId c"
  by (simp_all add: settle_def)

lemma off_fields [simp]:
  "observed (off s i c) = observed c"
  "executed (off s i c) = executed c"
  "promises (off s i c) = promises c"
  "tasks (off s i c) = tasks c"
  "history (off s i c) = history c"
  "autoRestarts (off s i c) = autoRestarts c"
  "nextId (off s i c) = nextId c"
  by (simp_all add: off_def)

lemma dropTask_more [simp]:
  "valueEmitter (dropTask t c) = valueEmitter c"
  "observed (dropTask t c) = observed c"
  "executed (dropTask t c) = executed c"
  "autoRestarts (dropTask t c) = autoRestarts c"
  "nextId (dropTask t c) = nextId c"
  "tasks (dropTask t c) = remove1 t (tasks c)"
  by (simp_all add: dropTask_def)

lemma neverFires_sync:
  "syncClosed (neverFires k b) (\<lambda>l c. callbackOf l \<noteq> Observer k)
     (\<lambda>f c. f \<noteq> Observer k \<and> neverFires k b c) (\<lambda>p c. True) UNIV"
  unfolding syncClosed_def neverFires_def unregistered_def
  by (intro conjI allI impI; (auto dest!: fire_listeners register_listeners)[1])

lemma neverFires_top:
  "topClosed (neverFires k b) (\<lambda>f c. f \<noteq> Observer k \<and> neverFires k b c) (\<lambda>p c. True) (\<lambda>j. j \<noteq> k)"
  unfolding topClosed_def neverFires_def unregistered_def
  by (intro conjI allI impI; (auto dest!: off_listeners register_listeners)[1])

lemma setFatal_gen:
  assumes cl: "syncClosed I A J Own S" and S: "syncStates \<subseteq> S" "Fatal \<in> S"
    and ownF: "\<And>p c e. Own p c \<Longrightarrow>
                 Own p (c\<lparr>currentState := Fatal, error := e, history := Fatal # history c\<rparr>)"
    and "I c" "Own p c" "setState (runCallback n) Fatal e c = Some c'"
  shows "I c' \<and> Own p c'"
proof -
  note run = runCallback_gen[OF cl S(1), of n]
  note gr = runCallback_grows[of n]
  let ?c0 = "c\<lparr>currentState := Fatal, error := e, history := Fatal # history c\<rparr>"
  from setState_gen[OF cl run gr S(2) assms(5,7)] have "I c'" .
  moreover have "syncGrows ?c0 c'"
    using assms(7) emitLoop_grows[OF gr] by (simp add: setState_def emit_def)
  from syncClosedD(25)[OF cl ownF[OF assms(6)] this] have "Own p c'" .
  ultimately show ?thesis by simp
qed

lemma runOps_gen:
  assumes cl: "syncClosed I A J Own UNIV" and tcl: "topClosed I J Own okObs"
    and ownF: "\<And>p c e. Own p c \<Longrightarrow>
                 Own p (c\<lparr>currentState := Fatal, error := e, history := Fatal # history c\<rparr>)"
  shows "I c \<Longrightarrow> \<forall>x \<in> set ops. okOp okObs x \<Longrightarrow> runOps n ops c = Some c' \<Longrightarrow> I c'"
proof (induction ops arbitrary: c)
  case (Cons x xs)
  from Cons.prems(3) obtain c1 where 1: "applyOp n x c = Some c1" and 2: "runOps n xs c1 = Some c'"
    by (auto split: option.splits)
  have "I c1"
  proof (cases x)
    case (Event ev)
    with 1 Cons.prems(2) have "step n ev c = Some c1" "okEvent okObs ev" by simp_all
    from step_gen[OF cl tcl _ _ Cons.prems(1) this(2,1)] setFatal_gen[OF cl _ _ ownF]
    show ?thesis by blast
  next
    case (SetState s e)
    with 1 have "setState (runCallback n) s e c = Some c1" by simp
    from setState_gen[OF cl runCallback_gen[OF cl] runCallback_grows _ Cons.prems(1) this]
    show ?thesis by simp
  qed
  from Cons.IH[OF this _ 2] Cons.prems(2) show ?case by simp
qed simp

lemma okOp_subscribes: "okOp (\<lambda>j. j \<noteq> k) x = (\<not> subscribes k x)"
  by (cases x; simp; cases "case x of Event ev \<Rightarrow> ev"; simp)

lemma slack_mono: "executed c \<subseteq> executed c' \<Longrightarrow> slack io c' \<le> slack io c"
  by (auto simp: slack_def split: option.splits)

lemma slack_upd [simp]:
  "slack io (c\<lparr>currentState := a1\<rparr>) = slack io c"
  "slack io (c\<lparr>error := a2\<rparr>) = slack io c"
  "slack io (c\<lparr>history := a3\<rparr>) = slack io c"
  "slack io (c\<lparr>stopLogListener := a4\<rparr>) = slack io c"
  "slack io (c\<lparr>connQueries := a5\<rparr>) = slack io c"
  "slack io (c\<lparr>effects := a6\<rparr>) = slack io c"
  "slack io (c\<lparr>tasks := a7\<rparr>) = slack io c"
  "slack io (c\<lparr>restartCnt := a8\<rparr>) = slack io c"
  "slack io (c\<lparr>autoRestarts := a9\<rparr>) = slack io c"
  "slack io (c\<lparr>observed := a10\<rparr>) = slack io c"
  "slack io (fire s k c) = slack io c"
  "slack io (snd (newPromise c)) = slack io c"
  "slack io (settle p v c) = slack io c"
  "slack io (snd (register ss f once c)) = slack io c"
  "slack io (dropTask t c) = slack io c"
  "slack io (off s i c) = slack io c"
  by (simp_all add: slack_def split: option.splits)

lemma firesAtMost_sync:
  "syncClosed (firesAtMost k io b) (\<lambda>l c. callbackOf l = Observer k \<longrightarrow> Some (cellOf l) = io)
     (mayRun k io b) (\<lambda>p c. True) UNIV"
  unfolding syncClosed_def
proof (intro conjI allI impI, goal_cases)
  case (2 c l)
  then show ?case
    by (cases "callbackOf l = Observer k")
       (auto simp: mayRun_def firesAtMost_def guarded_def slack_def split: option.splits)
qed (auto simp: mayRun_def firesAtMost_def guarded_def
       dest!: fire_listeners register_listeners split: if_splits)

lemma firesAtMost_top:
  "topClosed (firesAtMost k io b) (mayRun k io b) (\<lambda>p c. True) (\<lambda>j. j \<noteq> k)"
  unfolding topClosed_def
  by (intro conjI allI impI;
      (auto simp: mayRun_def firesAtMost_def guarded_def dest!: off_listeners register_listeners)[1])


section \<open>The fatal handler never restarts\<close>










lemma handlerFirst_upd [simp]:
  "handlerFirst (c\<lparr>currentState := a1\<rparr>) = handlerFirst c"
  "handlerFirst (c\<lparr>error := a2\<rparr>) = handlerFirst c"
  "handlerFirst (c\<lparr>history := a3\<rparr>) = handlerFirst c"
  "handlerFirst (c\<lparr>stopLogListener := a4\<rparr>) = handlerFirst c"
  "handlerFirst (c\<lparr>connQueries := a5\<rparr>) = handlerFirst c"
  "handlerFirst (c\<lparr>effects := a6\<rparr>) = handlerFirst c"
  "handlerFirst (c\<lparr>tasks := a7\<rparr>) = handlerFirst c"
  "handlerFirst (c\<lparr>restartCnt := a8\<rparr>) = handlerFirst c"
  "handlerFirst (c\<lparr>autoRestarts := a9\<rparr>) = handlerFirst c"
  "handlerFirst (c\<lparr>observed := a10\<rparr>) = handlerFirst c"
  "handlerFirst (c\<lparr>executed := a11\<rparr>) = handlerFirst c"
  "handlerFirst (snd (newPromise c)) = handlerFirst c"
  "handlerFirst (settle p v c) = handlerFirst c"
  "handlerFirst (dropTask t c) = handlerFirst c"
  by (simp_all add: handlerFirst_def)



lemma noRestart_upd [simp]:
  "noRestart (c\<lparr>currentState := a1\<rparr>) = noRestart c"
  "noRestart (c\<lparr>error := a2\<rparr>) = noRestart c"
  "noRestart (c\<lparr>history := a3\<rparr>) = noRestart c"
  "noRestart (c\<lparr>executed := a4\<rparr>) = noRestart c"
  by (simp_all add: noRestart_def)







lemma syncGrows_dispose [simp]: "syncGrows c (dispose d c)"
proof (cases d)
  case (Off ss i)
  have "syncGrows c (fold (\<lambda>s. off s i) ss c')" if "syncGrows c c'" for c'
    using that by (induction ss arbitrary: c') (simp_all add: off_def)
  from this[of c] Off show ?thesis by simp
qed simp





section \<open>Waiting calls\<close>








lemma reachedCount_Cons [simp]:
  "reachedCount (s # h) = (if s = Active \<or> s = Fatal then Suc (reachedCount h) else reachedCount h)"
  by (simp add: reachedCount_def)






lemma effects_register [simp]:
  "effects (snd (register ss f once c)) = effects c"
  "effects (snd (newPromise c)) = effects c"
  by (simp_all add: register_def Let_def newPromise_def)



subsection \<open>Registering for several states\<close>

lemma fired_register [simp]: "fired (snd (register ss f once c)) = fired c"
  by (simp add: register_def Let_def)

lemma inert_register [simp]: "inert (snd (register ss f once c)) l = inert c l"
  by (cases l) simp_all


subsection \<open>What entering a quiet state does to a subscription\<close>









































section \<open>The first run of the fatal handler\<close>








section \<open>Retry with backoff (C2)\<close>

text \<open>
  C2. A fresh instance (the constructor has allocated cells 0 and 1, so the promise of
  the first call is 2) whose connectivity predicate always answers true: when
  \<open>startListener()\<close> fails \<open>k < RESTART_CNT\<close> times, with the errors \<open>es\<close>, and
  then yields the token \<open>tok\<close>, the call of \<open>start()\<close> completes: its promise is
  resolved, the state is \<open>active\<close>, \<open>restartCnt\<close> is \<open>RESTART_CNT\<close> again, and
  the collaborators saw \<open>k + 1\<close> calls of \<open>startListener()\<close> with one sleep of
  \<open>RESTART_SLEEP\<close> = 100 ms after each failed one.
\<close>

theorem retry_then_active:
  assumes "int (length es) < RESTART_CNT"
  shows "\<exists>c'. steps (Suc n) (CallStart # attachFailures 2 es @ [AttachSettles 2 (Inr tok)])
                 (newDeviceListener alwaysConnected) = Some c'
            \<and> currentState c' = Active
            \<and> restartCnt c' = RESTART_CNT
            \<and> startListenerCalls c' = length es + 1
            \<and> effects c' = concat (replicate (length es) [CallStartListener, CallSleep 100])
                              @ [CallStartListener]
            \<and> promises c' 2 = Some Resolved
            \<and> tasks c' = []
            \<and> stopLogListener c' = Some tok
            \<and> error c' = None"
proof -
  from assms have "length es < 3" by (simp add: RESTART_CNT_def)
  then consider "es = []" | a where "es = [a]" | a b where "es = [a, b]"
    using short_list_cases by blast
  then show ?thesis
  proof cases
    case 1
    then show ?thesis by (simp add: model_defs startListenerCalls_def)
  next
    case 2
    then show ?thesis by (simp add: model_defs startListenerCalls_def)
  next
    case 3
    then show ?thesis by (simp add: model_defs startListenerCalls_def numeral_2_eq_2)
  qed
qed

theorem retry_then_active_witness:
  "int (length [Error ''first'', Error ''second'']) < RESTART_CNT
   \<and> (\<exists>c'. steps (Suc 0)
              [CallStart, AttachSettles 2 (Inl (Error ''first'')), SleepDone 2,
               AttachSettles 2 (Inl (Error ''second'')), SleepDone 2,
               AttachSettles 2 (Inr (Token 0 None))]
              (newDeviceListener alwaysConnected) = Some c'
          \<and> currentState c' = Active
          \<and> restartCnt c' = 3
          \<and> startListenerCalls c' = 3
          \<and> effects c' = [CallStartListener, CallSleep 100, CallStartListener, CallSleep 100,
                           CallStartListener])"
proof -
  have h: "int (length [Error ''first'', Error ''second'']) < RESTART_CNT"
    by (simp add: RESTART_CNT_def)
  from retry_then_active [OF h, of 0 "Token 0 None"]
  show ?thesis using h by (auto simp: attachFailures_def RESTART_CNT_def numeral_2_eq_2)
qed


section \<open>The detach sequence (C4, C5)\<close>

lemma attached_reached:
  "steps (Suc n) [CallStart, AttachSettles 2 (Inr tok)] (newDeviceListener alwaysConnected)
   = Some (attached tok)"
  by (simp add: model_defs attached_def numeral_2_eq_2 numeral_3_eq_3)

text \<open>
  C4. An instance in state \<open>active\<close> that holds the teardown token \<open>tok\<close>, with no
  call of \<open>start()\<close> or \<open>stop()\<close> waiting on the states the detach sequence passes
  through. \<open>stop()\<close> returns. When the token throws at once, the state is \<open>zombie\<close>
  with that error and the promise of the call is resolved. Otherwise the call is
  suspended in state \<open>stopping\<close> at the awaited teardown; when the teardown completes
  the state is \<open>inactive\<close>, when it rejects with \<open>e\<close> the state is \<open>zombie\<close> with
  \<open>error = e\<close>, and in both cases the promise of the call is resolved, not rejected.
\<close>

theorem stop_from_active:
  assumes "currentState c = Active" and "stopLogListener c = Some tok"
    and "quiet Stopping c" and "quiet Inactive c" and "quiet Zombie c"
  shows "\<exists>p c1. stop (runCallback (Suc n)) c = Some (p, c1)
           \<and> (case throwsOnCall tok of
                 Some e \<Rightarrow>
                   currentState c1 = Zombie \<and> error c1 = Some e \<and> promises c1 p = Some Resolved
               | None \<Rightarrow>
                   currentState c1 = Stopping \<and> promises c1 p = Some Pending
                   \<and> AwaitTeardown p \<in> set (tasks c1)
                   \<and> (\<exists>c2. step (Suc n) (TeardownSettles p None) c1 = Some c2
                          \<and> currentState c2 = Inactive \<and> error c2 = None
                          \<and> promises c2 p = Some Resolved)
                   \<and> (\<forall>e. \<exists>c2. step (Suc n) (TeardownSettles p (Some e)) c1 = Some c2
                          \<and> currentState c2 = Zombie \<and> error c2 = Some e
                          \<and> promises c2 p = Some Resolved))"
proof -
  let ?p = "nextId c"
  let ?c1 = "c\<lparr>nextId := nextId c + 1, promises := (promises c)(nextId c \<mapsto> Pending)\<rparr>"
  let ?c2 = "entered Stopping None ?c1"
  have q2: "quiet Inactive ?c2" "quiet Zombie ?c2"
    using assms(4,5) by (simp_all add: quiet_entered)
  have s1: "setState (runCallback (Suc n)) Stopping None ?c1 = Some ?c2"
    using assms(3) by (simp add: setState_quiet del: runCallback.simps)
  have st: "stop (runCallback (Suc n)) c = Some (?p, the (invokeToken (runCallback (Suc n)) ?p ?c2))
            \<and> invokeToken (runCallback (Suc n)) ?p ?c2 \<noteq> None"
    using assms(1,2,5) s1 q2
    by (auto simp: stop_def newPromise_def isState_def invokeToken_def assertNotNull_def
        setState_quiet simp del: runCallback.simps split: option.splits)
  show ?thesis
  proof (cases "throwsOnCall tok")
    case (Some e)
    have "invokeToken (runCallback (Suc n)) ?p ?c2
          = Some (resolve ?p (entered Zombie (Some e) (?c2\<lparr>effects := effects ?c2 @ [CallToken tok]\<rparr>)))"
      using assms(2) Some q2
      by (simp add: invokeToken_def assertNotNull_def setState_quiet del: runCallback.simps)
    with st Some show ?thesis by (auto simp: resolve_def settle_def)
  next
    case None
    let ?c3 = "?c2\<lparr>effects := effects ?c2 @ [CallToken tok], tasks := tasks ?c2 @ [AwaitTeardown ?p]\<rparr>"
    have i: "invokeToken (runCallback (Suc n)) ?p ?c2 = Some ?c3"
      using assms(2) None by (simp add: invokeToken_def assertNotNull_def del: runCallback.simps)
    have q3: "quiet Inactive (dropTask (AwaitTeardown ?p) ?c3)" "quiet Zombie (dropTask (AwaitTeardown ?p) ?c3)"
      using q2 by (simp_all add: dropTask_def)
    have a: "step (Suc n) (TeardownSettles ?p None) ?c3
             = Some (resolve ?p (entered Inactive None (dropTask (AwaitTeardown ?p) ?c3)))"
      using q3 by (simp add: teardownSettled_def setState_quiet del: runCallback.simps)
    have b: "step (Suc n) (TeardownSettles ?p (Some e)) ?c3
             = Some (resolve ?p (entered Zombie (Some e) (dropTask (AwaitTeardown ?p) ?c3)))" for e
      using q3 by (simp add: teardownSettled_def setState_quiet del: runCallback.simps)
    have pp: "promises (dropTask (AwaitTeardown ?p) ?c3) ?p = Some Pending"
      by (simp add: dropTask_def)
    show ?thesis
      apply (rule exI[of _ ?p], rule exI[of _ ?c3])
      using st i None a b pp
      by (simp add: resolve_def settle_def del: runCallback.simps step.simps)
  qed
qed


theorem stop_from_active_witness:
  "currentState (attached (Token 0 None)) = Active
   \<and> stopLogListener (attached (Token 0 None)) = Some (Token 0 None)
   \<and> quiet Stopping (attached (Token 0 None))
   \<and> quiet Inactive (attached (Token 0 None))
   \<and> quiet Zombie (attached (Token 0 None))
   \<and> (\<exists>p c1. stop (runCallback (Suc 0)) (attached (Token 0 None)) = Some (p, c1)
         \<and> currentState c1 = Stopping
         \<and> (\<exists>c2. step (Suc 0) (TeardownSettles p None) c1 = Some c2
                \<and> currentState c2 = Inactive \<and> promises c2 p = Some Resolved)
         \<and> (\<exists>c2. step (Suc 0) (TeardownSettles p (Some (Error ''gone''))) c1 = Some c2
                \<and> currentState c2 = Zombie \<and> error c2 = Some (Error ''gone'')
                \<and> promises c2 p = Some Resolved))"
proof -
  have h: "currentState (attached (Token 0 None)) = Active"
    "stopLogListener (attached (Token 0 None)) = Some (Token 0 None)"
    "quiet Stopping (attached (Token 0 None))"
    "quiet Inactive (attached (Token 0 None))"
    "quiet Zombie (attached (Token 0 None))"
    by (simp_all add: attached_def quiet_def)
  have "\<exists>p c1. stop (runCallback (Suc 0)) (attached (Token 0 None)) = Some (p, c1)
          \<and> currentState c1 = Stopping \<and> promises c1 p = Some Pending
          \<and> AwaitTeardown p \<in> set (tasks c1)
          \<and> (\<exists>c2. step (Suc 0) (TeardownSettles p None) c1 = Some c2
                 \<and> currentState c2 = Inactive \<and> error c2 = None
                 \<and> promises c2 p = Some Resolved)
          \<and> (\<forall>e. \<exists>c2. step (Suc 0) (TeardownSettles p (Some e)) c1 = Some c2
                 \<and> currentState c2 = Zombie \<and> error c2 = Some e
                 \<and> promises c2 p = Some Resolved)"
    using stop_from_active [OF h, of 0] by simp
  then show ?thesis using h by blast
qed

text \<open>
  C5, as the code has it. In state \<open>active\<close> with no teardown token stored,
  \<open>assertNotNull\<close> raises inside the \<open>try\<close> block of \<open>stop()\<close> and the \<open>catch\<close> block
  handles it like a failed teardown: the state becomes \<open>zombie\<close>, \<open>error\<close> is the
  assertion's error, no token is called, and the promise of \<open>stop()\<close> is resolved.
  The closed instance: the attached instance with its token taken away.
\<close>

theorem missing_token_is_swallowed:
  "callOutcome (stop (runCallback (Suc 0)) ((attached (Token 0 None))\<lparr>stopLogListener := None\<rparr>))
   = Some (Zombie, Some (Error ''Unexpected null/undefined value found''), Some Resolved)"
  by (simp add: callOutcome_def attached_def model_defs)

theorem stop_without_token:
  assumes "currentState c = Active" and "stopLogListener c = None"
    and "quiet Stopping c" and "quiet Zombie c"
  shows "\<exists>p c1. stop (runCallback (Suc n)) c = Some (p, c1)
           \<and> currentState c1 = Zombie
           \<and> error c1 = assertNotNull (stopLogListener c)
           \<and> error c1 \<noteq> None
           \<and> promises c1 p = Some Resolved
           \<and> effects c1 = effects c
           \<and> tasks c1 = tasks c"
proof -
  let ?c1 = "c\<lparr>nextId := nextId c + 1, promises := (promises c)(nextId c \<mapsto> Pending)\<rparr>"
  let ?c2 = "entered Stopping None ?c1"
  have q2: "quiet Zombie ?c2" using assms(4) by (simp add: quiet_entered)
  have s1: "setState (runCallback (Suc n)) Stopping None ?c1 = Some ?c2"
    using assms(3) by (simp add: setState_quiet del: runCallback.simps)
  have "stop (runCallback (Suc n)) c
        = Some (nextId c, resolve (nextId c) (entered Zombie (assertNotNull (stopLogListener c)) ?c2))"
    using assms(1,2) s1 q2
    by (simp add: stop_def newPromise_def isState_def invokeToken_def assertNotNull_def
        setState_quiet del: runCallback.simps)
  then show ?thesis using assms(2) by (simp add: resolve_def settle_def assertNotNull_def)
qed

theorem stop_without_token_witness:
  "currentState ((attached (Token 0 None))\<lparr>stopLogListener := None\<rparr>) = Active
   \<and> stopLogListener ((attached (Token 0 None))\<lparr>stopLogListener := None\<rparr>) = None
   \<and> quiet Stopping ((attached (Token 0 None))\<lparr>stopLogListener := None\<rparr>)
   \<and> quiet Zombie ((attached (Token 0 None))\<lparr>stopLogListener := None\<rparr>)
   \<and> (\<exists>p c1. stop (runCallback (Suc 0)) ((attached (Token 0 None))\<lparr>stopLogListener := None\<rparr>)
              = Some (p, c1)
         \<and> currentState c1 = Zombie \<and> error c1 \<noteq> None \<and> promises c1 p = Some Resolved)"
proof -
  let ?c = "(attached (Token 0 None))\<lparr>stopLogListener := None\<rparr>"
  have h: "currentState ?c = Active" "stopLogListener ?c = None" "quiet Stopping ?c" "quiet Zombie ?c"
    by (simp_all add: attached_def quiet_def)
  from stop_without_token [OF h, of 0] show ?thesis using h by blast
qed

section \<open>The stored teardown token (C7)\<close>

text \<open>
  C7, as the code has it. \<open>stop()\<close> never assigns \<open>stopLogListener\<close>; only the attach
  sequence clears it. After a start, a successful attach, a stop and a successful
  teardown the instance is \<open>inactive\<close> and still holds the token.
\<close>

theorem token_kept_after_stop:
  "outcome (steps (Suc 0)
              [CallStart, AttachSettles 2 (Inr (Token 0 None)), CallStop, TeardownSettles 3 None]
              (newDeviceListener alwaysConnected))
   = Some (Inactive, None, Some (Token 0 None))"
  by (simp add: outcome_def model_defs)

text \<open>
  The amended claim: in every state an instance can reach, from any connectivity
  predicate and under any sequence of events, the teardown token is present whenever
  the state is \<open>active\<close> or \<open>stopping\<close>, that is, attached and not yet detached.
\<close>

theorem token_present_while_attached:
  assumes "steps n evs (newDeviceListener conn) = Some c"
    and "currentState c = Active \<or> currentState c = Stopping"
  shows "stopLogListener c \<noteq> None"
  using steps_inv [OF init_inv assms(1)] assms(2) by (auto simp: lifecycleInv_def)

theorem token_present_while_attached_witness:
  "steps (Suc 0) [CallStart, AttachSettles 2 (Inr (Token 0 None))] (newDeviceListener alwaysConnected)
     = Some (attached (Token 0 None))
   \<and> (currentState (attached (Token 0 None)) = Active
      \<or> currentState (attached (Token 0 None)) = Stopping)
   \<and> stopLogListener (attached (Token 0 None)) \<noteq> None"
proof -
  have h: "steps (Suc 0) [CallStart, AttachSettles 2 (Inr (Token 0 None))]
             (newDeviceListener alwaysConnected) = Some (attached (Token 0 None))"
    by (rule attached_reached)
  have a: "currentState (attached (Token 0 None)) = Active
           \<or> currentState (attached (Token 0 None)) = Stopping"
    by (simp add: attached_def)
  from token_present_while_attached [OF h a] h a show ?thesis by blast
qed

section \<open>Subscriptions (C9, C10)\<close>

text \<open>
  C10. When \<open>on\<close> or \<open>once\<close> is called while the current state is one of the listed
  states, the callback runs once before the call returns, the registry is left as it
  was, and the unsubscribe function returned is the empty one. If the callback is not
  registered through another subscription, no later operation runs it again, whether
  \<open>on\<close> or \<open>once\<close> was used: over every sequence of events and of direct
  \<open>set\<close> calls that does not subscribe it anew, the number of its runs stays one more
  than before the call.
\<close>

theorem fires_when_already_there:
  assumes "currentState c \<in> set ss"
  shows "subscribe (runCallback (Suc n)) ss (Observer k) once c
           = Some (Noop, c\<lparr>observed := observed c @ [k]\<rparr>)
         \<and> dispose Noop (c\<lparr>observed := observed c @ [k]\<rparr>) = c\<lparr>observed := observed c @ [k]\<rparr>
         \<and> valueEmitter (c\<lparr>observed := observed c @ [k]\<rparr>) = valueEmitter c
         \<and> (unregistered k c \<longrightarrow>
              (\<forall>m ops c2. (\<forall>x \<in> set ops. \<not> subscribes k x) \<longrightarrow>
                 runOps m ops (c\<lparr>observed := observed c @ [k]\<rparr>) = Some c2 \<longrightarrow>
                 count_list (observed c2) k = count_list (observed c) k + 1))"
proof -
  have "count_list (observed c2) k = count_list (observed c) k + 1"
    if u: "unregistered k c" and ok: "\<forall>x \<in> set ops. \<not> subscribes k x"
      and r: "runOps m ops (c\<lparr>observed := observed c @ [k]\<rparr>) = Some c2" for m ops c2
  proof -
    let ?b = "count_list (observed c) k + 1"
    have i: "neverFires k ?b (c\<lparr>observed := observed c @ [k]\<rparr>)"
      using u by (simp add: neverFires_def unregistered_def)
    have ok': "\<forall>x \<in> set ops. okOp (\<lambda>j. j \<noteq> k) x" using ok by (simp add: okOp_subscribes)
    from runOps_gen[OF neverFires_sync neverFires_top _ i ok' r]
    show ?thesis by (simp add: neverFires_def)
  qed
  with assms show ?thesis by (simp add: subscribe_def)
qed


theorem fires_when_already_there_witness:
  "currentState (attached (Token 0 None)) \<in> set [Active, Fatal]
   \<and> subscribe (runCallback (Suc 0)) [Active, Fatal] (Observer 5) False (attached (Token 0 None))
       = Some (Noop, (attached (Token 0 None))\<lparr>observed := [5]\<rparr>)
   \<and> unregistered 5 (attached (Token 0 None))
   \<and> list_all (\<lambda>x. \<not> subscribes 5 x)
         [Event CallStop, Event (TeardownSettles 3 None), Event CallStart,
          Event (AttachSettles 4 (Inr (Token 1 None)))]
   \<and> (\<exists>c2. runOps (Suc 0)
              [Event CallStop, Event (TeardownSettles 3 None), Event CallStart,
               Event (AttachSettles 4 (Inr (Token 1 None)))]
              ((attached (Token 0 None))\<lparr>observed := [5]\<rparr>) = Some c2
          \<and> currentState c2 = Active
          \<and> count_list (observed c2) 5 = 1)"
proof -
  let ?c = "attached (Token 0 None)"
  let ?ops = "[Event CallStop, Event (TeardownSettles 3 None), Event CallStart,
               Event (AttachSettles 4 (Inr (Token 1 None)))]"
  have h: "currentState ?c \<in> set [Active, Fatal]" by (simp add: attached_def)
  have u: "unregistered 5 ?c" by (simp add: unregistered_def attached_def)
  have ok: "\<forall>x \<in> set ?ops. \<not> subscribes 5 x" by simp
  have o: "observed ?c = []" by (simp add: attached_def)
  obtain c2 where r: "runOps (Suc 0) ?ops (?c\<lparr>observed := observed ?c @ [5]\<rparr>) = Some c2"
    and s: "currentState c2 = Active"
    by (simp add: attached_def model_defs)
  from fires_when_already_there [OF h, of 0 5 False] u ok r
  have "subscribe (runCallback (Suc 0)) [Active, Fatal] (Observer 5) False ?c
          = Some (Noop, ?c\<lparr>observed := observed ?c @ [5]\<rparr>)"
    and "count_list (observed c2) 5 = count_list (observed ?c) 5 + 1"
    by blast+
  with h u r s o show ?thesis by (auto simp del: runOps.simps)
qed

text \<open>
  C9. A callback subscribed with \<open>once\<close> against any list of states, and not
  registered through another subscription, runs at most once: over every sequence of
  events and of direct \<open>set\<close> calls that does not subscribe it anew, the number of its
  runs grows by at most one, however many of the listed states are entered.
\<close>

theorem once_runs_at_most_once:
  assumes "unregistered k c"
    and "subscribe (runCallback n) ss (Observer k) True c = Some (d, c1)"
    and "\<forall>x \<in> set ops. \<not> subscribes k x"
    and "runOps m ops c1 = Some c2"
  shows "count_list (observed c2) k \<le> count_list (observed c) k + 1"
proof -
  let ?b = "count_list (observed c) k + 1"
  have ok': "\<forall>x \<in> set ops. okOp (\<lambda>j. j \<noteq> k) x" using assms(3) by (simp add: okOp_subscribes)
  show ?thesis
  proof (cases "currentState c \<in> set ss")
    case True
    with assms(2) have "runCallback n (Observer k) c = Some c1"
      by (auto simp: subscribe_def split: option.splits)
    then have "c1 = c\<lparr>observed := observed c @ [k]\<rparr>" by (cases n) auto
    with assms(1) have "firesAtMost k None ?b c1"
      by (simp add: firesAtMost_def guarded_def unregistered_def slack_def)
    from runOps_gen[OF firesAtMost_sync firesAtMost_top _ this ok' assms(4)]
    show ?thesis by (simp add: firesAtMost_def)
  next
    case False
    with assms(2) have c1: "c1 = snd (register ss (Observer k) True c)"
      by (auto simp: subscribe_def)
    have "firesAtMost k (Some (nextId c)) ?b c1"
      using assms(1) unfolding c1
      by (auto simp: firesAtMost_def guarded_def unregistered_def slack_def
          dest!: register_listeners)
    from runOps_gen[OF firesAtMost_sync firesAtMost_top _ this ok' assms(4)]
    show ?thesis by (simp add: firesAtMost_def)
  qed
qed


theorem once_runs_at_most_once_witness:
  "unregistered 5 (newDeviceListener alwaysConnected)
   \<and> list_all (\<lambda>x. \<not> subscribes 5 x)
         [SetState Active None, SetState Fatal (Some (Error ''lost''))]
   \<and> (\<exists>d c1 c2 c3.
         subscribe (runCallback (Suc 0)) [Active, Fatal] (Observer 5) True
           (newDeviceListener alwaysConnected) = Some (d, c1)
         \<and> runOps (Suc (Suc 0)) [SetState Active None, SetState Fatal (Some (Error ''lost''))] c1
             = Some c2
         \<and> count_list (observed c2) 5 \<le> 1
         \<and> observed c2 = [5]
         \<and> runOps (Suc (Suc 0)) [SetState Fatal (Some (Error ''lost'')), SetState Active None] c1
             = Some c3
         \<and> observed c3 = [5])"
proof -
  let ?c = "newDeviceListener alwaysConnected"
  let ?ops = "[SetState Active None, SetState Fatal (Some (Error ''lost''))]"
  have u: "unregistered 5 ?c"
    by (simp add: unregistered_def newDeviceListener_def blank_def register_def addListener_def)
  have ok: "\<forall>x \<in> set ?ops. \<not> subscribes 5 x" by simp
  obtain d c1 where s: "subscribe (runCallback (Suc 0)) [Active, Fatal] (Observer 5) True ?c = Some (d, c1)"
    and c1: "c1 = snd (register [Active, Fatal] (Observer 5) True ?c)"
    by (simp add: subscribe_def newDeviceListener_def blank_def register_def addListener_def)
  obtain c2 where r: "runOps (Suc (Suc 0)) ?ops c1 = Some c2" and o2: "observed c2 = [5]"
    unfolding c1 by (simp add: model_defs)
  obtain c3 where r3: "runOps (Suc (Suc 0)) [SetState Fatal (Some (Error ''lost'')), SetState Active None] c1
                       = Some c3" and o3: "observed c3 = [5]"
    unfolding c1 by (simp add: model_defs)
  have o: "observed ?c = []" by (simp add: model_defs)
  from once_runs_at_most_once [OF u s ok r] o have "count_list (observed c2) 5 \<le> 1" by simp
  with u s r o2 r3 o3 show ?thesis by auto
qed

section \<open>One transition at a time (C1)\<close>




section \<open>A connectivity predicate that throws (C6)\<close>

text \<open>
  C6, as the code has it. The predicate is called outside any \<open>try\<close> block, so what it
  throws ends the activation of \<open>start()\<close>: the promise of the call is rejected with
  it, \<open>error\<close> stays unset and the state stays \<open>starting\<close>. The closed instance: a
  fresh instance whose predicate throws.
\<close>

theorem predicate_error_reaches_caller:
  "callOutcome (start (runCallback (Suc 0)) (newDeviceListener (\<lambda>q. Inl (Error ''usb''))))
   = Some (Starting, None, Some (Rejected (Error ''usb'')))"
  by (simp add: callOutcome_def model_defs)

text \<open>
  The amended claim (C6). First pass: from a state in which \<open>start()\<close> runs the attach
  sequence, with no call waiting on \<open>starting\<close>, a predicate that throws \<open>e\<close> makes
  \<open>start()\<close> return a promise rejected with \<open>e\<close>; nothing is stored in \<open>error\<close>
  and no collaborator is called. After a backoff sleep: when the activation of
  \<open>start()\<close> with promise \<open>p\<close> is resumed from its sleep, with the token unset
  and \<open>p\<close> pending, and the predicate throws \<open>e\<close>, then \<open>p\<close> is rejected
  with \<open>e\<close>, and state, \<open>error\<close> and the calls to the collaborators stay as
  they were.
\<close>

theorem predicate_error_rejects_start:
  "((currentState c = Inactive \<or> currentState c = Zombie \<or> currentState c = Fatal)
      \<and> quiet Starting c
      \<and> isDeviceConnected c (connQueries c) = Inl e
    \<longrightarrow> (\<exists>p c1. start (runCallback (Suc n)) c = Some (p, c1)
            \<and> promises c1 p = Some (Rejected e)
            \<and> error c1 = None
            \<and> currentState c1 = Starting
            \<and> effects c1 = effects c))
   \<and> (AwaitSleep p \<in> set (tasks c) \<and> stopLogListener c = None
        \<and> promises c p = Some Pending
        \<and> isDeviceConnected c (connQueries c) = Inl e
      \<longrightarrow> (\<exists>c1. step (Suc n) (SleepDone p) c = Some c1
              \<and> promises c1 p = Some (Rejected e)
              \<and> error c1 = error c
              \<and> currentState c1 = currentState c
              \<and> effects c1 = effects c))"
proof (intro conjI impI)
  assume h: "(currentState c = Inactive \<or> currentState c = Zombie \<or> currentState c = Fatal)
      \<and> quiet Starting c \<and> isDeviceConnected c (connQueries c) = Inl e"
  let ?c1 = "c\<lparr>nextId := nextId c + 1, promises := (promises c)(nextId c \<mapsto> Pending),
                stopLogListener := None\<rparr>"
  let ?c2 = "entered Starting None ?c1"
  have s1: "setState (runCallback (Suc n)) Starting None ?c1 = Some ?c2"
    using h by (simp add: setState_quiet del: runCallback.simps)
  have "start (runCallback (Suc n)) c
        = Some (nextId c, reject (nextId c) e (?c2\<lparr>connQueries := connQueries c + 1\<rparr>))"
    using h s1
    by (auto simp: start_def newPromise_def isState_def attachLoop_def simp del: runCallback.simps)
  then show "\<exists>p c1. start (runCallback (Suc n)) c = Some (p, c1)
            \<and> promises c1 p = Some (Rejected e) \<and> error c1 = None
            \<and> currentState c1 = Starting \<and> effects c1 = effects c"
    by (simp add: reject_def settle_def)
next
  assume "AwaitSleep p \<in> set (tasks c) \<and> stopLogListener c = None
        \<and> promises c p = Some Pending \<and> isDeviceConnected c (connQueries c) = Inl e"
  then show "\<exists>c1. step (Suc n) (SleepDone p) c = Some c1
              \<and> promises c1 p = Some (Rejected e)
              \<and> error c1 = error c
              \<and> currentState c1 = currentState c
              \<and> effects c1 = effects c"
    by (simp add: attachLoop_def dropTask_def reject_def settle_def del: runCallback.simps)
qed

theorem predicate_error_rejects_start_witness:
  "(\<exists>p c1. currentState (newDeviceListener (\<lambda>q. Inl (Error ''usb''))) = Inactive
       \<and> quiet Starting (newDeviceListener (\<lambda>q. Inl (Error ''usb'')))
       \<and> start (runCallback (Suc 0)) (newDeviceListener (\<lambda>q. Inl (Error ''usb''))) = Some (p, c1)
       \<and> promises c1 p = Some (Rejected (Error ''usb''))
       \<and> error c1 = None)
   \<and> (\<exists>c c1. steps (Suc 0) [CallStart, AttachSettles 2 (Inl (Error ''io''))]
                 (newDeviceListener (flaky (Error ''usb''))) = Some c
       \<and> currentState c = Starting
       \<and> AwaitSleep 2 \<in> set (tasks c) \<and> stopLogListener c = None
       \<and> promises c 2 = Some Pending
       \<and> isDeviceConnected c (connQueries c) = Inl (Error ''usb'')
       \<and> step (Suc 0) (SleepDone 2) c = Some c1
       \<and> promises c1 2 = Some (Rejected (Error ''usb''))
       \<and> error c1 = None
       \<and> currentState c1 = Starting)"
proof -
  let ?c = "newDeviceListener (\<lambda>q. Inl (Error ''usb''))"
  have h: "(currentState ?c = Inactive \<or> currentState ?c = Zombie \<or> currentState ?c = Fatal)
           \<and> quiet Starting ?c \<and> isDeviceConnected ?c (connQueries ?c) = Inl (Error ''usb'')"
    by (simp add: quiet_def newDeviceListener_def blank_def register_def addListener_def)
  have h1: "currentState ?c = Inactive" "quiet Starting ?c"
    by (simp_all add: quiet_def newDeviceListener_def blank_def register_def addListener_def)
  from predicate_error_rejects_start [of ?c "Error ''usb''" 0, THEN conjunct1] h
  have a: "\<exists>p c1. start (runCallback (Suc 0)) ?c = Some (p, c1)
            \<and> promises c1 p = Some (Rejected (Error ''usb'')) \<and> error c1 = None"
    by blast
  have "\<exists>d. steps (Suc 0) [CallStart, AttachSettles 2 (Inl (Error ''io''))]
                 (newDeviceListener (flaky (Error ''usb''))) = Some d
       \<and> currentState d = Starting \<and> error d = None
       \<and> AwaitSleep 2 \<in> set (tasks d) \<and> stopLogListener d = None
       \<and> promises d 2 = Some Pending
       \<and> isDeviceConnected d (connQueries d) = Inl (Error ''usb'')"
    by (simp add: model_defs flaky_def)
  then obtain d where d: "steps (Suc 0) [CallStart, AttachSettles 2 (Inl (Error ''io''))]
                 (newDeviceListener (flaky (Error ''usb''))) = Some d"
       "currentState d = Starting" "error d = None"
       "AwaitSleep 2 \<in> set (tasks d) \<and> stopLogListener d = None
       \<and> promises d 2 = Some Pending
       \<and> isDeviceConnected d (connQueries d) = Inl (Error ''usb'')"
    by blast
  from predicate_error_rejects_start [of d "Error ''usb''" 0 2, THEN conjunct2] d(4)
  obtain c1 where c1: "step (Suc 0) (SleepDone 2) d = Some c1"
     "promises c1 2 = Some (Rejected (Error ''usb''))" "error c1 = error d"
     "currentState c1 = currentState d"
    by blast
  from a h1 d c1 show ?thesis by (auto simp del: steps.simps step.simps)
qed

section \<open>Exhausted retries and the fatal handler (C3)\<close>




section \<open>One-shot registrations on the states that did not fire (C8)\<close>




end
